theory Spec2Isabelle
  imports
    Main
    "HOL-Library.Word"
    "HOL-Library.Char_ord"
    "HOL-Library.List_Lexorder"
    "HOL-Library.Sublist"
begin

section \<open>Values, errors and results\<close>

text \<open>
  The template engine hands every argument over as an \<^verbatim>\<open>interface{}\<close>. The model keeps
  the dynamic types that the helper functions tell apart: the nil interface, strings
  (the only type the assertion \<^verbatim>\<open>values[i].(string)\<close> accepts), booleans and integers
  (which \<^verbatim>\<open>cast.ToStringE\<close> converts), and \<open>VOther\<close>, a value of any other dynamic
  type that \<^verbatim>\<open>cast\<close> does not convert (a struct, a slice of numbers), carried as the
  text that \<^verbatim>\<open>fmt\<close> prints for it under \<^verbatim>\<open>%v\<close>. A Go string is a sequence of
  bytes, as an Isabelle \<open>string\<close> is.
\<close>

datatype go_value =
    VNil
  | VString string
  | VBool bool
  | VInt int
  | VOther string

text \<open>
  An error value made by \<^verbatim>\<open>errors.New\<close> is identified by its message; \<open>CastError\<close> is
  the error that the \<^verbatim>\<open>cast\<close> package returns for the value it could not convert; a
  run-time panic is kept apart from the returned errors.
\<close>

datatype go_error =
    New string
  | CastError go_value
  | Panic string

type_synonym 'a result = "go_error + 'a"

definition ArityError :: go_error where
  "ArityError = New ''invalid dict call''"

definition KeyTypeError :: go_error where
  "KeyTypeError = New ''dict keys must be strings''"

definition QuerifyError :: go_error where
  "QuerifyError = New ''querify keys must be strings''"

fun is_panic :: "'a result \<Rightarrow> bool" where
  "is_panic (Inl (Panic m)) = True"
| "is_panic r = False"

section \<open>loop\<close>

text \<open>
  \<^verbatim>\<open>make([]struct{}, n)\<close>: the element type has size zero, so the only check of the
  run-time's \<^verbatim>\<open>makeslice\<close> that can fire is the one on a negative length. A Go
  \<^verbatim>\<open>int\<close> is a signed machine word; its width is left open.
\<close>

definition make_struct_slice :: "'a::len word \<Rightarrow> unit list result" where
  "make_struct_slice n =
     (if sint n < 0 then Inl (Panic ''runtime error: makeslice: len out of range'')
      else Inr (replicate (nat (sint n)) ()))"

definition loop :: "'a::len word \<Rightarrow> unit list result" where
  "loop n = make_struct_slice n"

section \<open>dictionary\<close>

text \<open>
  The Go map under construction is a finite partial function. The loop of
  \<^verbatim>\<open>dictionary\<close> walks the arguments by index in steps of two; an index past the end
  of the slice would panic, which the model writes out.
\<close>

function dictionary_loop ::
  "go_value list \<Rightarrow> nat \<Rightarrow> (string \<rightharpoonup> go_value) \<Rightarrow> (string \<rightharpoonup> go_value) result" where
  "dictionary_loop vs i dict =
     (if i < length vs then
        (case vs ! i of
           VString key \<Rightarrow>
             (if i + 1 < length vs
              then dictionary_loop vs (i + 2) (dict(key \<mapsto> vs ! (i + 1)))
              else Inl (Panic ''runtime error: index out of range''))
         | _ \<Rightarrow> Inl KeyTypeError)
      else Inr dict)"
  by pat_completeness auto
termination
  by (relation "measure (\<lambda>(vs, i, dict). length vs - i)") auto

declare dictionary_loop.simps [simp del]

definition dictionary :: "go_value list \<Rightarrow> (string \<rightharpoonup> go_value) result" where
  "dictionary vs =
     (if length vs mod 2 \<noteq> 0 then Inl ArityError
      else dictionary_loop vs 0 Map.empty)"

text \<open>The arguments at the key positions 0, 2, 4, ... of an argument list.\<close>

definition key_args :: "go_value list \<Rightarrow> go_value list" where
  "key_args vs = map (\<lambda>j. vs ! (2 * j)) [0..<length vs div 2]"

fun is_VString :: "go_value \<Rightarrow> bool" where
  "is_VString (VString s) = True"
| "is_VString v = False"

section \<open>Coercion to a string\<close>

text \<open>
  \<^verbatim>\<open>strconv.Itoa\<close> and \<^verbatim>\<open>strconv.FormatBool\<close>: the decimal digits of an integer,
  with a leading minus sign for a negative one, and the words true and false.
\<close>

definition digit_chars :: string where
  "digit_chars = ''0123456789''"

function format_digits :: "nat \<Rightarrow> string" where
  "format_digits n =
     (if n < 10 then [digit_chars ! n]
      else format_digits (n div 10) @ [digit_chars ! (n mod 10)])"
  by pat_completeness auto
termination
  by (relation "measure (\<lambda>n. n)") auto

declare format_digits.simps [simp del]

definition Itoa :: "int \<Rightarrow> string" where
  "Itoa i = (if i < 0 then CHR ''-'' # format_digits (nat (- i)) else format_digits (nat i))"

definition FormatBool :: "bool \<Rightarrow> string" where
  "FormatBool b = (if b then ''true'' else ''false'')"

text \<open>
  \<^verbatim>\<open>cast.ToStringE\<close> on the dynamic types of the model: a string is returned as it
  is, a boolean and an integer are formatted, nil becomes the empty string, and a value
  of a type the package does not know is refused with an error.
\<close>

fun ToStringE :: "go_value \<Rightarrow> string result" where
  "ToStringE (VString s) = Inr s"
| "ToStringE (VBool b) = Inr (FormatBool b)"
| "ToStringE (VInt i) = Inr (Itoa i)"
| "ToStringE VNil = Inr []"
| "ToStringE (VOther r) = Inl (CastError (VOther r))"

section \<open>htmlEscape\<close>

text \<open>
  \<^verbatim>\<open>html.EscapeString\<close> runs a byte replacer over the string with the five pairs
  \<^verbatim>\<open>&\<close> to \<^verbatim>\<open>&amp;\<close>, \<^verbatim>\<open>'\<close> to \<^verbatim>\<open>&#39;\<close>, \<^verbatim>\<open><\<close> to \<^verbatim>\<open>&lt;\<close>,
  \<^verbatim>\<open>>\<close> to \<^verbatim>\<open>&gt;\<close> and the double quote to \<^verbatim>\<open>&#34;\<close>; every other byte is
  copied.
\<close>

definition html_special :: "char set" where
  "html_special = {CHR ''&'', CHR 0x27, CHR ''<'', CHR ''>'', CHR 0x22}"

definition escape_byte :: "char \<Rightarrow> string" where
  "escape_byte c =
     (if c = CHR ''&'' then ''&amp;''
      else if c = CHR 0x27 then ''&#39;''
      else if c = CHR ''<'' then ''&lt;''
      else if c = CHR ''>'' then ''&gt;''
      else if c = CHR 0x22 then ''&#34;''
      else [c])"

definition EscapeString :: "string \<Rightarrow> string" where
  "EscapeString s = concat (map escape_byte s)"

definition htmlEscape :: "go_value \<Rightarrow> string result" where
  "htmlEscape v =
     (case ToStringE v of
        Inl err \<Rightarrow> Inl err
      | Inr conv \<Rightarrow> Inr (EscapeString conv))"

section \<open>UTF-8 sequences\<close>

text \<open>
  The tables of the \<^verbatim>\<open>unicode/utf8\<close> package. \<open>utf8_first\<close> gives for a first byte the
  code \<^verbatim>\<open>as\<close> (0xF0) for ASCII, \<^verbatim>\<open>xx\<close> (0xF1) for a byte that starts no sequence, and
  otherwise the size of the sequence in the low three bits and the index of its
  accept range in the high four. \<open>acceptRanges\<close> bounds the second byte; every later
  byte lies between \<^verbatim>\<open>locb\<close> and \<^verbatim>\<open>hicb\<close>.
\<close>

definition utf8_first :: "char \<Rightarrow> nat" where
  "utf8_first c =
     (let b = (of_char c :: nat) in
      if b < 0x80 then 0xF0
      else if b < 0xC2 then 0xF1
      else if b < 0xE0 then 0x02
      else if b = 0xE0 then 0x13
      else if b < 0xED then 0x03
      else if b = 0xED then 0x23
      else if b < 0xF0 then 0x03
      else if b = 0xF0 then 0x34
      else if b < 0xF4 then 0x04
      else if b = 0xF4 then 0x44
      else 0xF1)"

definition acceptRanges :: "nat \<Rightarrow> nat \<times> nat" where
  "acceptRanges k =
     (if k = 1 then (0xA0, 0xBF)
      else if k = 2 then (0x80, 0x9F)
      else if k = 3 then (0x90, 0xBF)
      else if k = 4 then (0x80, 0x8F)
      else (0x80, 0xBF))"

definition locb :: nat where "locb = 0x80"
definition hicb :: nat where "hicb = 0xBF"
definition RuneError :: nat where "RuneError = 0xFFFD"

text \<open>
  \<^verbatim>\<open>utf8.DecodeRuneInString\<close>: the first code point of the string and the number of
  bytes it takes; an invalid or short sequence gives \<^verbatim>\<open>RuneError\<close> and the width 1,
  the empty string the width 0.
\<close>

definition DecodeRuneInString :: "string \<Rightarrow> nat \<times> nat" where
  "DecodeRuneInString s =
     (let n = length s in
      if n < 1 then (RuneError, 0)
      else
        let s0 = (of_char (s ! 0) :: nat); x = utf8_first (s ! 0) in
        if x \<ge> 0xF0 then (if x = 0xF0 then (s0, 1) else (RuneError, 1))
        else
          let sz = x mod 8; accept = acceptRanges (x div 16) in
          if n < sz then (RuneError, 1)
          else
            let s1 = (of_char (s ! 1) :: nat) in
            if s1 < fst accept \<or> snd accept < s1 then (RuneError, 1)
            else if sz \<le> 2 then ((s0 mod 32) * 64 + s1 mod 64, 2)
            else
              let s2 = (of_char (s ! 2) :: nat) in
              if s2 < locb \<or> hicb < s2 then (RuneError, 1)
              else if sz \<le> 3 then ((s0 mod 16) * 4096 + (s1 mod 64) * 64 + s2 mod 64, 3)
              else
                let s3 = (of_char (s ! 3) :: nat) in
                if s3 < locb \<or> hicb < s3 then (RuneError, 1)
                else ((s0 mod 8) * 262144 + (s1 mod 64) * 4096 + (s2 mod 64) * 64 + s3 mod 64, 4))"

text \<open>
  \<^verbatim>\<open>utf8.RuneCountInString\<close> walks the string with an index; the body of its loop
  decides by how many bytes the index moves. The model keeps the part of the string
  from the index on.
\<close>

definition RuneCount_step :: "string \<Rightarrow> nat" where
  "RuneCount_step s =
     (let c = s ! 0 in
      if (of_char c :: nat) < 0x80 then 1
      else
        let x = utf8_first c in
        if x = 0xF1 then 1
        else
          let size = x mod 8 in
          if size > length s then 1
          else
            let accept = acceptRanges (x div 16); c1 = (of_char (s ! 1) :: nat) in
            if c1 < fst accept \<or> snd accept < c1 then 1
            else if size = 2 then size
            else
              let c2 = (of_char (s ! 2) :: nat) in
              if c2 < locb \<or> hicb < c2 then 1
              else if size = 3 then size
              else
                let c3 = (of_char (s ! 3) :: nat) in
                if c3 < locb \<or> hicb < c3 then 1 else size)"

lemma utf8_first_cases:
  "utf8_first c \<in> {0xF0, 0xF1, 0x02, 0x13, 0x03, 0x23, 0x34, 0x04, 0x44}"
  by (simp add: utf8_first_def Let_def)

lemma utf8_first_ascii: "utf8_first c = 0xF0 \<longleftrightarrow> (of_char c :: nat) < 0x80"
  by (simp add: utf8_first_def Let_def)

lemma utf8_first_size:
  "utf8_first c \<noteq> 0xF0 \<Longrightarrow> utf8_first c \<noteq> 0xF1 \<Longrightarrow> utf8_first c mod 8 \<in> {2, 3, 4}"
  using utf8_first_cases[of c] by auto

lemma RuneCount_step_pos: "0 < RuneCount_step s"
proof (cases "utf8_first (s ! 0) = 0xF0 \<or> utf8_first (s ! 0) = 0xF1")
  case True
  then show ?thesis by (auto simp: RuneCount_step_def Let_def utf8_first_ascii)
next
  case False
  then have "utf8_first (s ! 0) mod 8 \<in> {2, 3, 4}" using utf8_first_size by blast
  then have "0 < utf8_first (s ! 0) mod 8" by auto
  then show ?thesis by (simp add: RuneCount_step_def Let_def)
qed

function RuneCount_loop :: "string \<Rightarrow> nat \<Rightarrow> nat" where
  "RuneCount_loop s n =
     (if s = [] then n else RuneCount_loop (drop (RuneCount_step s) s) (n + 1))"
  by pat_completeness auto
termination
  by (relation "measure (\<lambda>(s, n). length s)") (use RuneCount_step_pos in auto)

declare RuneCount_loop.simps [simp del]

definition RuneCountInString :: "string \<Rightarrow> nat" where
  "RuneCountInString s = RuneCount_loop s 0"

section \<open>strings.Split\<close>

text \<open>
  \<^verbatim>\<open>strings.Index\<close>: the index of the first instance of \<open>substr\<close> in \<open>s\<close>, or -1 when
  there is none. The library searches with several algorithms chosen by the lengths;
  the model is the left-to-right search they all implement.
\<close>

fun Index :: "string \<Rightarrow> string \<Rightarrow> int" where
  "Index [] substr = (if substr = [] then 0 else - 1)"
| "Index (c # s) substr =
     (if prefix substr (c # s) then 0
      else (let i = Index s substr in if i < 0 then - 1 else i + 1))"

lemma Index_range: "Index s substr = - 1 \<or> (0 \<le> Index s substr \<and> nat (Index s substr) + length substr \<le> length s)"
proof (induction s)
  case Nil
  then show ?case by simp
next
  case (Cons c s)
  show ?case
  proof (cases "prefix substr (c # s)")
    case True
    then show ?thesis using prefix_length_le[OF True] by simp
  next
    case False
    with Cons show ?thesis by (auto simp: Let_def)
  qed
qed

lemma Index_nonempty:
  assumes "substr \<noteq> []" "Index s substr \<noteq> - 1"
  shows "0 < nat (Index s substr) + length substr" "s \<noteq> []"
  using assms by (cases s; auto)+

text \<open>
  \<^verbatim>\<open>strings.Count\<close>: the number of non-overlapping instances of \<open>substr\<close> in \<open>s\<close>; for
  the empty \<open>substr\<close> one more than the number of code points. The counting loop is
  entered with a non-empty \<open>substr\<close> only (the test in its guard says so again, for
  termination), and each round drops the text up to the end of the instance found. The
  library counts a single byte with a faster routine that gives the same number.
\<close>

function Count_loop :: "string \<Rightarrow> string \<Rightarrow> int \<Rightarrow> int" where
  "Count_loop s substr n =
     (let i = Index s substr in
      if i = - 1 \<or> substr = [] then n
      else Count_loop (drop (nat i + length substr) s) substr (n + 1))"
  by pat_completeness auto
termination
proof (relation "measure (\<lambda>(s, substr, n). length s)")
  show "wf (measure (\<lambda>(s, substr, n). length s))" by simp
next
  fix s substr :: string and n i :: int
  assume "i = Index s substr" "\<not> (i = - 1 \<or> substr = [])"
  then have "0 < nat i + length substr" "s \<noteq> []"
    using Index_nonempty[of substr s] by simp_all
  then show "((drop (nat i + length substr) s, substr, n + 1), (s, substr, n))
      \<in> measure (\<lambda>(s, substr, n). length s)"
    by (cases s) simp_all
qed

declare Count_loop.simps [simp del]

definition Count :: "string \<Rightarrow> string \<Rightarrow> int" where
  "Count s substr =
     (if substr = [] then int (RuneCountInString s) + 1
      else Count_loop s substr 0)"

text \<open>
  \<^verbatim>\<open>explode\<close> cuts the string into its UTF-8 sequences: the slice has one slot for
  each code point, the loop fills all but the last with the next decoded sequence, and
  the last slot takes what is left.
\<close>

function explode_loop :: "string list \<Rightarrow> string \<Rightarrow> int \<Rightarrow> nat \<Rightarrow> string list \<times> string" where
  "explode_loop a s n i =
     (if int i < n - 1 then
        (let size = snd (DecodeRuneInString s) in
         explode_loop (a[i := take size s]) (drop size s) n (i + 1))
      else (a, s))"
  by pat_completeness auto
termination
  by (relation "measure (\<lambda>(a, s, n, i). nat (n - int i))") auto

declare explode_loop.simps [simp del]

definition explode :: "string \<Rightarrow> int \<Rightarrow> string list" where
  "explode s n =
     (let l = int (RuneCountInString s);
          n = (if n < 0 \<or> n > l then l else n);
          a = replicate (nat n) [];
          (a, s) = explode_loop a s n 0
      in if n > 0 then a[nat (n - 1) := s] else a)"

text \<open>
  \<^verbatim>\<open>genSplit\<close> with its slice \<open>a\<close> of \<open>n\<close> slots: the loop stores the text before each
  instance of the separator and moves behind it, until the slots but one are used or
  no instance is left; the rest of the string goes into the next slot.
\<close>

function genSplit_loop ::
  "string list \<Rightarrow> string \<Rightarrow> string \<Rightarrow> int \<Rightarrow> int \<Rightarrow> nat \<Rightarrow> string list \<times> string \<times> nat" where
  "genSplit_loop a s sep sepSave n i =
     (if int i < n then
        (let m = Index s sep in
         if m < 0 then (a, s, i)
         else genSplit_loop (a[i := take (nat (m + sepSave)) s])
                (drop (nat m + length sep) s) sep sepSave n (i + 1))
      else (a, s, i))"
  by pat_completeness auto
termination
  by (relation "measure (\<lambda>(a, s, sep, sepSave, n, i). nat (n - int i))") auto

declare genSplit_loop.simps [simp del]

definition genSplit :: "string \<Rightarrow> string \<Rightarrow> int \<Rightarrow> int \<Rightarrow> string list" where
  "genSplit s sep sepSave n =
     (if n = 0 then []
      else if sep = [] then explode s n
      else
        let n = (if n < 0 then Count s sep + 1 else n);
            n = (if n > int (length s) + 1 then int (length s) + 1 else n);
            a = replicate (nat n) [];
            n = n - 1;
            (a, s, i) = genSplit_loop a s sep sepSave n 0
        in take (i + 1) (a[i := s]))"

definition Split :: "string \<Rightarrow> string \<Rightarrow> string list" where
  "Split s sep = genSplit s sep 0 (- 1)"

section \<open>split\<close>

definition split :: "go_value \<Rightarrow> string \<Rightarrow> string list result" where
  "split a delimiter =
     (case ToStringE a of
        Inl err \<Rightarrow> Inl err
      | Inr aStr \<Rightarrow> Inr (Split aStr delimiter))"

section \<open>Reference functions for the splitting loops\<close>

text \<open>
  \<^verbatim>\<open>strings.Join\<close>: the elements with the separator between neighbours. It states what
  the pieces of a split add up to.
\<close>

fun Join :: "string list \<Rightarrow> string \<Rightarrow> string" where
  "Join [] sep = []"
| "Join [x] sep = x"
| "Join (x # y # zs) sep = x @ sep @ Join (y # zs) sep"

text \<open>
  The pieces that cutting at each leftmost instance of a non-empty separator leaves,
  as a list built from the front. The loop of \<open>genSplit\<close>, which fills an array that
  \<open>Count\<close> has sized, is compared with it.
\<close>

function split_pieces :: "string \<Rightarrow> string \<Rightarrow> string list" where
  "split_pieces s sep =
     (let m = Index s sep in
      if m = - 1 \<or> sep = [] then [s]
      else take (nat m) s # split_pieces (drop (nat m + length sep) s) sep)"
  by pat_completeness auto
termination
proof (relation "measure (\<lambda>(s, sep). length s)")
  show "wf (measure (\<lambda>(s, sep). length s))" by simp
next
  fix s sep :: string and m :: int
  assume "m = Index s sep" "\<not> (m = - 1 \<or> sep = [])"
  then have "0 < nat m + length sep" "s \<noteq> []"
    using Index_nonempty[of sep s] by simp_all
  then show "((drop (nat m + length sep) s, sep), (s, sep)) \<in> measure (\<lambda>(s, sep). length s)"
    by (cases s) simp_all
qed

declare split_pieces.simps [simp del]

text \<open>The UTF-8 sequences of a string, one after the other, as a list built from the front.\<close>

function explode_pieces :: "string \<Rightarrow> string list" where
  "explode_pieces s =
     (if s = [] then []
      else take (RuneCount_step s) s # explode_pieces (drop (RuneCount_step s) s))"
  by pat_completeness auto
termination
  by (relation "measure length") (use RuneCount_step_pos in auto)

declare explode_pieces.simps [simp del]

section \<open>querify\<close>

text \<open>
  \<^verbatim>\<open>fmt.Sprintf("%v", value)\<close> on the dynamic types of the model: a string prints as
  it is, a boolean and an integer in their default formats, the nil interface as
  \<^verbatim>\<open><nil>\<close>.
\<close>

fun Sprintf_v :: "go_value \<Rightarrow> string" where
  "Sprintf_v (VString s) = s"
| "Sprintf_v (VBool b) = FormatBool b"
| "Sprintf_v (VInt i) = Itoa i"
| "Sprintf_v VNil = ''<nil>''"
| "Sprintf_v (VOther r) = r"

text \<open>
  \<^verbatim>\<open>url.QueryEscape\<close>, that is \<^verbatim>\<open>escape\<close> in the mode \<^verbatim>\<open>encodeQueryComponent\<close>:
  letters, digits and the marks \<^verbatim>\<open>- _ . ~\<close> are kept, a space becomes \<^verbatim>\<open>+\<close>, and
  every other byte becomes \<^verbatim>\<open>%\<close> and two upper-case hexadecimal digits.
\<close>

definition upperhex :: string where
  "upperhex = ''0123456789ABCDEF''"

definition shouldEscape :: "char \<Rightarrow> bool" where
  "shouldEscape c =
     (if (CHR ''a'' \<le> c \<and> c \<le> CHR ''z'') \<or> (CHR ''A'' \<le> c \<and> c \<le> CHR ''Z'') \<or>
         (CHR ''0'' \<le> c \<and> c \<le> CHR ''9'') then False
      else if c = CHR ''-'' \<or> c = CHR ''_'' \<or> c = CHR ''.'' \<or> c = CHR ''~'' then False
      else True)"

definition escape_query_byte :: "char \<Rightarrow> string" where
  "escape_query_byte c =
     (if shouldEscape c then
        (if c = CHR '' '' then ''+''
         else [CHR ''%'', upperhex ! ((of_char c :: nat) div 16), upperhex ! ((of_char c :: nat) mod 16)])
      else [c])"

definition QueryEscape :: "string \<Rightarrow> string" where
  "QueryEscape s = concat (map escape_query_byte s)"

text \<open>
  \<^verbatim>\<open>url.Values\<close> is a map from a key to the list of its values. \<^verbatim>\<open>Add\<close> appends a
  value to the list of a key (a missing key has the nil list).
\<close>

type_synonym Values = "string \<rightharpoonup> string list"

definition Add :: "Values \<Rightarrow> string \<Rightarrow> string \<Rightarrow> Values" where
  "Add v key val = v(key \<mapsto> (case v key of None \<Rightarrow> [] | Some vs \<Rightarrow> vs) @ [val])"


text \<open>
  \<^verbatim>\<open>Values.Encode\<close>: the keys are collected by a \<^verbatim>\<open>range\<close> over the map (in the order
  \<open>ks\<close>, so that \<^verbatim>\<open>len(v)\<close> is the length of \<open>ks\<close>) and then sorted; for each key in
  turn and each of its values the buffer takes an \<^verbatim>\<open>&\<close> unless it is still empty,
  the escaped key, \<^verbatim>\<open>=\<close> and the escaped value.
\<close>

definition encode_values :: "string \<Rightarrow> string list \<Rightarrow> string \<Rightarrow> string" where
  "encode_values keyEscaped vs buf =
     foldl (\<lambda>buf v. (if length buf > 0 then buf @ ''&'' else buf) @ keyEscaped @ ''='' @ QueryEscape v)
       buf vs"

definition Encode :: "string list \<Rightarrow> Values \<Rightarrow> string" where
  "Encode ks v =
     (if length ks = 0 then []
      else
        let keys = sort ks in
        foldl (\<lambda>buf k. encode_values (QueryEscape k) (case v k of None \<Rightarrow> [] | Some vs \<Rightarrow> vs) buf)
          [] keys)"

text \<open>
  \<open>querify\<close> with the two iteration orders of one call: \<open>visit\<close> is the order in which
  the \<^verbatim>\<open>range\<close> over the dictionary visits its keys, \<open>collect\<close> the order in which
  \<^verbatim>\<open>Encode\<close> collects the keys of the query values.
\<close>

definition querify :: "string list \<Rightarrow> string list \<Rightarrow> go_value list \<Rightarrow> string result" where
  "querify visit collect params =
     (case dictionary params of
        Inl err \<Rightarrow> Inl QuerifyError
      | Inr vals \<Rightarrow>
          let qs = foldl (\<lambda>qs name.
                      case vals name of
                        None \<Rightarrow> qs
                      | Some v \<Rightarrow> Add qs name (Sprintf_v v))
                    Map.empty visit
          in Inr (Encode collect qs))"

section \<open>htmlUnescape\<close>

text \<open>
  \<^verbatim>\<open>html.UnescapeString\<close> decodes character references in place, in a byte copy \<open>b\<close> of
  the string, with a read cursor \<open>src\<close> and a write cursor \<open>dst\<close>. The two tables of
  named references (\<^verbatim>\<open>entity\<close>, a name to one code point, and \<^verbatim>\<open>entity2\<close>, a name to
  two; an absent name gives 0) are generated data of the library and are arguments of
  the model. A code point is a \<^verbatim>\<open>rune\<close>, a signed 32-bit integer.
\<close>

record entity_tables =
  entity :: "string \<Rightarrow> 32 word"
  entity2 :: "string \<Rightarrow> 32 word \<times> 32 word"

definition rune :: "char \<Rightarrow> 32 word" where
  "rune c = of_nat (of_char c)"

definition replacementTable :: "32 word list" where
  "replacementTable =
     [0x20AC, 0x0081, 0x201A, 0x0192, 0x201E, 0x2026, 0x2020, 0x2021,
      0x02C6, 0x2030, 0x0160, 0x2039, 0x0152, 0x008D, 0x017D, 0x008F,
      0x0090, 0x2018, 0x2019, 0x201C, 0x201D, 0x2022, 0x2013, 0x2014,
      0x02DC, 0x2122, 0x0161, 0x203A, 0x0153, 0x009D, 0x017E, 0x0178]"

definition longestEntityWithoutSemicolon :: nat where
  "longestEntityWithoutSemicolon = 6"

text \<open>
  \<^verbatim>\<open>utf8.EncodeRune\<close>: the bytes it writes for a code point, read as an unsigned
  number; a surrogate or a number above \<^verbatim>\<open>MaxRune\<close> is written as \<^verbatim>\<open>RuneError\<close>.
\<close>

definition EncodeRune :: "32 word \<Rightarrow> string" where
  "EncodeRune r =
     (let i = unat r in
      if i \<le> 0x7F then [char_of i]
      else if i \<le> 0x7FF then [char_of (0xC0 + i div 64), char_of (0x80 + i mod 64)]
      else
        let i = (if i > 0x10FFFF \<or> (0xD800 \<le> i \<and> i \<le> 0xDFFF) then RuneError else i) in
        if i \<le> 0xFFFF then
          [char_of (0xE0 + i div 4096), char_of (0x80 + i div 64 mod 64), char_of (0x80 + i mod 64)]
        else
          [char_of (0xF0 + i div 262144), char_of (0x80 + i div 4096 mod 64),
           char_of (0x80 + i div 64 mod 64), char_of (0x80 + i mod 64)])"

text \<open>
  Writes into the buffer. An index or a slice bound outside the buffer panics in Go;
  the model says so.
\<close>

definition copy_byte :: "string \<Rightarrow> nat \<Rightarrow> nat \<Rightarrow> (string \<times> nat \<times> nat) result" where
  "copy_byte b dst src =
     (if dst < length b \<and> src < length b then Inr (b[dst := b ! src], dst + 1, src + 1)
      else Inl (Panic ''runtime error: index out of range''))"

definition put_rune :: "string \<Rightarrow> nat \<Rightarrow> 32 word \<Rightarrow> (string \<times> nat) result" where
  "put_rune b dst x =
     (let p = EncodeRune x in
      if dst + length p \<le> length b
      then Inr (take dst b @ p @ drop (dst + length p) b, dst + length p)
      else Inl (Panic ''runtime error: index out of range''))"

definition copy_run :: "string \<Rightarrow> nat \<Rightarrow> nat \<Rightarrow> nat \<Rightarrow> (string \<times> nat \<times> nat) result" where
  "copy_run b dst src i =
     (if dst + i \<le> length b \<and> src + i \<le> length b
      then Inr (take dst b @ take i (drop src b) @ drop (dst + i) b, dst + i, src + i)
      else Inl (Panic ''runtime error: slice bounds out of range''))"

text \<open>
  The loop over the digits of a numeric reference: it returns the index behind the
  last byte it consumed (a closing semicolon included) and the number read, which
  wraps around as a 32-bit integer does.
\<close>

function numeric_loop :: "string \<Rightarrow> bool \<Rightarrow> nat \<Rightarrow> 32 word \<Rightarrow> nat \<times> 32 word" where
  "numeric_loop s hex i x =
     (if i < length s then
        (let c = s ! i in
         if hex \<and> CHR ''0'' \<le> c \<and> c \<le> CHR ''9''
           then numeric_loop s hex (i + 1) (16 * x + rune c - rune CHR ''0'')
         else if hex \<and> CHR ''a'' \<le> c \<and> c \<le> CHR ''f''
           then numeric_loop s hex (i + 1) (16 * x + rune c - rune CHR ''a'' + 10)
         else if hex \<and> CHR ''A'' \<le> c \<and> c \<le> CHR ''F''
           then numeric_loop s hex (i + 1) (16 * x + rune c - rune CHR ''A'' + 10)
         else if \<not> hex \<and> CHR ''0'' \<le> c \<and> c \<le> CHR ''9''
           then numeric_loop s hex (i + 1) (10 * x + rune c - rune CHR ''0'')
         else if c \<noteq> CHR '';'' then (i, x)
         else (i + 1, x))
      else (i, x))"
  by pat_completeness auto
termination
  by (relation "measure (\<lambda>(s, hex, i, x). length s - i)") auto

declare numeric_loop.simps [simp del]

text \<open>The loop over the letters and digits of a named reference, up to a semicolon.\<close>

function name_loop :: "string \<Rightarrow> nat \<Rightarrow> nat" where
  "name_loop s i =
     (if i < length s then
        (let c = s ! i in
         if (CHR ''a'' \<le> c \<and> c \<le> CHR ''z'') \<or> (CHR ''A'' \<le> c \<and> c \<le> CHR ''Z'') \<or>
            (CHR ''0'' \<le> c \<and> c \<le> CHR ''9'')
           then name_loop s (i + 1)
         else if c \<noteq> CHR '';'' then i
         else i + 1)
      else i)"
  by pat_completeness auto
termination
  by (relation "measure (\<lambda>(s, i). length s - i)") auto

declare name_loop.simps [simp del]

text \<open>The search for the longest known name without a semicolon that starts the name read.\<close>

function prefix_loop :: "(string \<Rightarrow> 32 word) \<Rightarrow> string \<Rightarrow> nat \<Rightarrow> (nat \<times> 32 word) option" where
  "prefix_loop ent entityName j =
     (if j > 1 then
        (if ent (take j entityName) \<noteq> 0 then Some (j, ent (take j entityName))
         else prefix_loop ent entityName (j - 1))
      else None)"
  by pat_completeness auto
termination
  by (relation "measure (\<lambda>(ent, entityName, j). j)") auto

declare prefix_loop.simps [simp del]

definition unescapeEntity ::
  "entity_tables \<Rightarrow> string \<Rightarrow> nat \<Rightarrow> nat \<Rightarrow> (string \<times> nat \<times> nat) result" where
  "unescapeEntity T b dst src =
     (let s = drop src b in
      if length s \<le> 1 then copy_byte b dst src
      else if s ! 1 = CHR ''#'' then
        (if length s \<le> 3 then copy_byte b dst src
         else
           let c = s ! 2;
               hex = (c = CHR ''x'' \<or> c = CHR ''X'');
               (i, x) = numeric_loop s hex (if hex then 3 else 2) 0
           in
           if i \<le> 3 then copy_byte b dst src
           else
             let x = (if 0x80 \<le> sint x \<and> sint x \<le> 0x9F then replacementTable ! unat (x - 0x80)
                      else if x = 0 \<or> (0xD800 \<le> sint x \<and> sint x \<le> 0xDFFF) \<or> 0x10FFFF < sint x
                        then 0xFFFD
                      else x)
             in
             (case put_rune b dst x of
                Inl err \<Rightarrow> Inl err
              | Inr (b, dst1) \<Rightarrow> Inr (b, dst1, src + i)))
      else
        let i = name_loop s 1;
            entityName = take (i - 1) (drop 1 s)
        in
        if length entityName = 0 then copy_run b dst src i
        else if entity T entityName \<noteq> 0 then
          (case put_rune b dst (entity T entityName) of
             Inl err \<Rightarrow> Inl err
           | Inr (b, dst1) \<Rightarrow> Inr (b, dst1, src + i))
        else if fst (entity2 T entityName) \<noteq> 0 then
          (case put_rune b dst (fst (entity2 T entityName)) of
             Inl err \<Rightarrow> Inl err
           | Inr (b, dst1) \<Rightarrow>
               (case put_rune b dst1 (snd (entity2 T entityName)) of
                  Inl err \<Rightarrow> Inl err
                | Inr (b, dst2) \<Rightarrow> Inr (b, dst2, src + i)))
        else
          (case prefix_loop (entity T) entityName
                  (min (length entityName - 1) longestEntityWithoutSemicolon) of
             Some (j, x) \<Rightarrow>
               (case put_rune b dst x of
                  Inl err \<Rightarrow> Inl err
                | Inr (b, dst1) \<Rightarrow> Inr (b, dst1, src + j + 1))
           | None \<Rightarrow> copy_run b dst src i))"

lemma name_loop_ge: "i \<le> name_loop s i"
proof (induction s i rule: name_loop.induct)
  case (1 s i)
  show ?case
  proof (cases "i < length s \<and> ((CHR ''a'' \<le> s ! i \<and> s ! i \<le> CHR ''z'') \<or>
      (CHR ''A'' \<le> s ! i \<and> s ! i \<le> CHR ''Z'') \<or> (CHR ''0'' \<le> s ! i \<and> s ! i \<le> CHR ''9''))")
    case True
    then have "name_loop s i = name_loop s (i + 1)"
      by (subst name_loop.simps) (simp add: Let_def)
    moreover have "i + 1 \<le> name_loop s (i + 1)"
      using True by (intro "1.IH"[OF _ refl]) auto
    ultimately show ?thesis by simp
  next
    case False
    then show ?thesis by (subst name_loop.simps) (auto simp: Let_def)
  qed
qed

lemma copy_byte_advance:
  "copy_byte b dst src = Inr (b', dst', src') \<Longrightarrow> src < src'"
  by (auto simp: copy_byte_def split: if_splits)

lemma copy_run_advance:
  "copy_run b dst src i = Inr (b', dst', src') \<Longrightarrow> src' = src + i"
  by (auto simp: copy_run_def split: if_splits)

lemma unescapeEntity_advance:
  assumes "unescapeEntity T b dst src = Inr (b', dst', src')"
  shows "src < src'"
proof -
  have "0 < name_loop (drop src b) 1"
    using name_loop_ge[of 1 "drop src b"] by simp
  with assms show ?thesis
    unfolding unescapeEntity_def Let_def
    by (auto split: if_splits sum.splits prod.splits option.splits
        dest: copy_byte_advance copy_run_advance)
qed

text \<open>\<^verbatim>\<open>strings.IndexByte\<close>: the index of the first byte equal to \<open>c\<close>, or -1.\<close>

fun IndexByte :: "string \<Rightarrow> char \<Rightarrow> int" where
  "IndexByte [] c = - 1"
| "IndexByte (x # xs) c =
     (if x = c then 0 else (let i = IndexByte xs c in if i < 0 then - 1 else i + 1))"

text \<open>
  \<^verbatim>\<open>copy(b[dst:], xs)\<close> copies as many bytes as fit and returns their number;
  \<^verbatim>\<open>string(b[:dst])\<close> is the written part of the buffer.
\<close>

definition copy_bytes :: "string \<Rightarrow> nat \<Rightarrow> string \<Rightarrow> (string \<times> nat) result" where
  "copy_bytes b dst xs =
     (if dst \<le> length b then
        (let n = min (length b - dst) (length xs) in
         Inr (take dst b @ take n xs @ drop (dst + n) b, n))
      else Inl (Panic ''runtime error: slice bounds out of range''))"

definition slice_to :: "string \<Rightarrow> nat \<Rightarrow> string result" where
  "slice_to b dst =
     (if dst \<le> length b then Inr (take dst b)
      else Inl (Panic ''runtime error: slice bounds out of range''))"

text \<open>
  The loop of \<^verbatim>\<open>UnescapeString\<close>: the bytes up to the next \<^verbatim>\<open>&\<close> are copied down from
  the string \<open>s\<close> to the write cursor, and the reference is decoded from the buffer.
\<close>

function unescape_loop :: "entity_tables \<Rightarrow> string \<Rightarrow> string \<Rightarrow> nat \<Rightarrow> nat \<Rightarrow> string result" where
  "unescape_loop T s b dst src =
     (if src > length s then Inl (Panic ''runtime error: slice bounds out of range'')
      else if length (drop src s) > 0 then
        (let i = (if s ! src = CHR ''&'' then 0 else IndexByte (drop src s) CHR ''&'') in
         if i < 0 then
           (case copy_bytes b dst (drop src s) of
              Inl err \<Rightarrow> Inl err
            | Inr (b, n) \<Rightarrow> slice_to b (dst + n))
         else
           (case (if i > 0 then copy_bytes b dst (take (nat i) (drop src s)) else Inr (b, 0)) of
              Inl err \<Rightarrow> Inl err
            | Inr (b, n) \<Rightarrow>
                (case unescapeEntity T b (dst + nat i) (src + nat i) of
                   Inl err \<Rightarrow> Inl err
                 | Inr (b, dst, src') \<Rightarrow> unescape_loop T s b dst src')))
      else slice_to b dst)"
  by pat_completeness auto
termination
proof (relation "measure (\<lambda>(T, s, b, dst, src). length s - src)")
  show "wf (measure (\<lambda>(T, s, b, dst, src). length s - src))" by simp
next
  fix T s b dst src i x2 b' n x2a b'' y dst' src'
  assume "\<not> length s < src" "0 < length (drop src s)"
    and "unescapeEntity T b' (dst + nat i) (src + nat i) = Inr x2a"
    and "(b'', y) = x2a" "(dst', src') = y"
  then have "src + nat i < src'" "src < length s"
    using unescapeEntity_advance[of T b' "dst + nat i" "src + nat i" b'' dst' src'] by auto
  then show "((T, s, b'', dst', src'), T, s, b, dst, src) \<in> measure (\<lambda>(T, s, b, dst, src). length s - src)"
    by simp
qed

declare unescape_loop.simps [simp del]

definition UnescapeString :: "entity_tables \<Rightarrow> string \<Rightarrow> string result" where
  "UnescapeString T s =
     (let i = IndexByte s CHR ''&'' in
      if i < 0 then Inr s
      else
        (case unescapeEntity T s (nat i) (nat i) of
           Inl err \<Rightarrow> Inl err
         | Inr (b, dst, src) \<Rightarrow> unescape_loop T s b dst src))"

definition htmlUnescape :: "entity_tables \<Rightarrow> go_value \<Rightarrow> string result" where
  "htmlUnescape T v =
     (case ToStringE v of
        Inl err \<Rightarrow> Inl err
      | Inr conv \<Rightarrow> UnescapeString T conv)"

text \<open>
  The entries of the table \<^verbatim>\<open>entity\<close> for the three names that \<open>htmlEscape\<close> writes,
  as \<^verbatim>\<open>html/entity.go\<close> lists them.
\<close>

definition escaped_entities :: "entity_tables \<Rightarrow> bool" where
  "escaped_entities T \<longleftrightarrow>
     entity T ''amp;'' = 0x26 \<and> entity T ''lt;'' = 0x3C \<and> entity T ''gt;'' = 0x3E"

text \<open>
  A few rows of the two tables, enough to run the decoder: names with and without the
  closing semicolon, and one name that stands for two code points.
\<close>

definition sample_tables :: entity_tables where
  "sample_tables =
     \<lparr>entity = (\<lambda>n. if n = ''amp;'' then 0x26 else if n = ''lt;'' then 0x3C
                    else if n = ''gt;'' then 0x3E else if n = ''amp'' then 0x26
                    else if n = ''not'' then 0xAC else if n = ''eacute;'' then 0xE9
                    else if n = ''notin;'' then 0x2209 else 0),
      entity2 = (\<lambda>n. if n = ''NotEqualTilde;'' then (0x2242, 0x0338) else (0, 0))\<rparr>"

section \<open>dateFormat\<close>









section \<open>Properties of loop\<close>

text \<open>
  C1 (as amended): for every \<open>n \<ge> 0\<close> the call \<open>loop n\<close> returns a slice of exactly
  \<open>n\<close> elements of the empty struct type, so \<open>loop 3\<close> has three elements and
  \<open>loop 0\<close> is empty; for a negative \<open>n\<close> the call does not return a slice: it
  panics in \<^verbatim>\<open>make\<close> with the run-time error "makeslice: len out of range".
\<close>

theorem loop_elements:
  "(0 \<le> sint n \<longrightarrow> (\<exists>xs. loop n = Inr xs \<and> length xs = nat (sint n))) \<and>
   (sint n < 0 \<longrightarrow> loop n = Inl (Panic ''runtime error: makeslice: len out of range'')) \<and>
   loop (3 :: 64 word) = Inr [(), (), ()] \<and>
   loop (0 :: 64 word) = Inr []"
  by (simp add: loop_def make_struct_slice_def eval_nat_numeral)

theorem loop_elements_witness:
  "(\<exists>xs. loop (5 :: 64 word) = Inr xs \<and> length xs = 5) \<and>
   loop (- 7 :: 64 word) = Inl (Panic ''runtime error: makeslice: len out of range'')"
  using loop_elements[of "5 :: 64 word"] loop_elements[of "- 7 :: 64 word"] by simp

text \<open>
  The claim as first stated says that a negative input never panics. At \<open>n = -1\<close>
  the call panics.
\<close>

theorem loop_negative_counterexample:
  "is_panic (loop (- 1 :: 64 word))"
  by (simp add: loop_def make_struct_slice_def)

section \<open>Properties of dictionary\<close>

subsection \<open>The loop over the argument pairs\<close>

lemma dictionary_loop_bad_key:
  assumes "even (length vs)" "even i"
    and "\<exists>j. i \<le> j \<and> j < length vs \<and> even j \<and> \<not> is_VString (vs ! j)"
  shows "dictionary_loop vs i d = Inl KeyTypeError"
  using assms
proof (induction vs i d rule: dictionary_loop.induct)
  case (1 vs i dict)
  from "1.prems" obtain j where j: "i \<le> j" "j < length vs" "even j" "\<not> is_VString (vs ! j)"
    by blast
  then have lt: "i < length vs" by simp
  show ?case
  proof (cases "vs ! i")
    case (VString key)
    then have "j \<noteq> i" using j by auto
    with j \<open>even i\<close> have j2: "i + 2 \<le> j" by presburger
    then have i1: "i + 1 < length vs" using j by simp
    have ex: "\<exists>j. i + 2 \<le> j \<and> j < length vs \<and> even j \<and> \<not> is_VString (vs ! j)"
      using j j2 by blast
    have ev: "even (i + 2)" using \<open>even i\<close> by simp
    have "dictionary_loop vs (i + 2) (dict(key \<mapsto> vs ! (i + 1))) = Inl KeyTypeError"
      by (rule "1.IH"[OF lt VString i1 "1.prems"(1) ev ex])
    then show ?thesis
      using lt VString i1 by (simp add: dictionary_loop.simps[of vs i])
  qed (use lt in \<open>simp_all add: dictionary_loop.simps[of vs i]\<close>)
qed

lemma dictionary_loop_ok:
  assumes "even (length vs)" "even i"
    and "\<forall>j. i \<le> j \<and> j < length vs \<and> even j \<longrightarrow> is_VString (vs ! j)"
  shows "\<exists>d'. dictionary_loop vs i d = Inr d' \<and>
           (\<forall>k. (\<forall>j. i \<le> j \<and> j < length vs \<and> even j \<longrightarrow> vs ! j \<noteq> VString k) \<longrightarrow> d' k = d k) \<and>
           (\<forall>k j. i \<le> j \<and> j < length vs \<and> even j \<and> vs ! j = VString k \<and>
                  (\<forall>j'. j < j' \<and> j' < length vs \<and> even j' \<longrightarrow> vs ! j' \<noteq> VString k)
                  \<longrightarrow> d' k = Some (vs ! (j + 1)))"
  using assms
proof (induction vs i d rule: dictionary_loop.induct)
  case (1 vs i dict)
  show ?case
  proof (cases "i < length vs")
    case False
    then show ?thesis by (auto simp add: dictionary_loop.simps[of vs i])
  next
    case lt: True
    with "1.prems" have "is_VString (vs ! i)" by auto
    then obtain key where key: "vs ! i = VString key" by (cases "vs ! i") auto
    from lt "1.prems"(1,2) have i1: "i + 1 < length vs" by presburger
    let ?d = "dict(key \<mapsto> vs ! (i + 1))"
    have "\<forall>j. i + 2 \<le> j \<and> j < length vs \<and> even j \<longrightarrow> is_VString (vs ! j)"
      using "1.prems"(3) by auto
    moreover have "even (i + 2)" using "1.prems"(2) by simp
    ultimately obtain d' where d': "dictionary_loop vs (i + 2) ?d = Inr d'"
      and keep: "\<And>k. (\<forall>j. i + 2 \<le> j \<and> j < length vs \<and> even j \<longrightarrow> vs ! j \<noteq> VString k) \<Longrightarrow> d' k = ?d k"
      and last: "\<And>k j. i + 2 \<le> j \<Longrightarrow> j < length vs \<Longrightarrow> even j \<Longrightarrow> vs ! j = VString k \<Longrightarrow>
                  (\<forall>j'. j < j' \<and> j' < length vs \<and> even j' \<longrightarrow> vs ! j' \<noteq> VString k)
                  \<Longrightarrow> d' k = Some (vs ! (j + 1))"
      using "1.IH"[OF lt key i1 "1.prems"(1), of ] by blast
    have step: "dictionary_loop vs i dict = Inr d'"
      using lt key i1 d' by (simp add: dictionary_loop.simps[of vs i])
    have range: "\<And>j. i \<le> j \<Longrightarrow> even j \<Longrightarrow> j = i \<or> i + 2 \<le> j"
      using "1.prems"(2) by presburger
    have A: "d' k = dict k" if "\<forall>j. i \<le> j \<and> j < length vs \<and> even j \<longrightarrow> vs ! j \<noteq> VString k" for k
    proof -
      from that lt "1.prems"(2) key have "k \<noteq> key" by auto
      moreover have "d' k = ?d k" using that by (intro keep) auto
      ultimately show ?thesis by simp
    qed
    have B: "d' k = Some (vs ! (j + 1))"
      if "i \<le> j" "j < length vs" "even j" "vs ! j = VString k"
         "\<forall>j'. j < j' \<and> j' < length vs \<and> even j' \<longrightarrow> vs ! j' \<noteq> VString k" for k j
    proof (cases "j = i")
      case True
      then have "k = key" using that key by simp
      have "d' k = ?d k" using that True by (intro keep) auto
      then show ?thesis using True \<open>k = key\<close> by simp
    next
      case False
      then have "i + 2 \<le> j" using range that by blast
      then show ?thesis using that by (intro last) auto
    qed
    show ?thesis using step A B by blast
  qed
qed

subsection \<open>The keys of the result\<close>

lemma set_key_args:
  assumes "even (length vs)"
  shows "set (key_args vs) = {vs ! j | j. j < length vs \<and> even j}"
proof -
  have a: "\<exists>m<length vs div 2. j = 2 * m" if "j < length vs" "even j" for j
  proof -
    from that(2) obtain m where m: "j = 2 * m" by (elim evenE)
    from assms obtain n where n: "length vs = 2 * n" by (elim evenE)
    have "m < length vs div 2" using that(1) m n by simp
    with m show ?thesis by blast
  qed
  have b: "2 * m < length vs" if "m < length vs div 2" for m
  proof -
    from assms obtain n where n: "length vs = 2 * n" by (elim evenE)
    show ?thesis using that n by simp
  qed
  show ?thesis
  proof (intro set_eqI iffI)
    fix x assume "x \<in> set (key_args vs)"
    then obtain m where "m < length vs div 2" "x = vs ! (2 * m)"
      by (auto simp: key_args_def)
    with b[of m] show "x \<in> {vs ! j | j. j < length vs \<and> even j}" by auto
  next
    fix x assume "x \<in> {vs ! j | j. j < length vs \<and> even j}"
    then obtain j where "j < length vs" "even j" "x = vs ! j" by blast
    with a[of j] obtain m where "m < length vs div 2" "x = vs ! (2 * m)" by blast
    then show "x \<in> set (key_args vs)" by (auto simp: key_args_def)
  qed
qed

lemma dictionary_ok:
  assumes ev: "even (length vs)"
    and keys: "\<forall>i<length vs. even i \<longrightarrow> is_VString (vs ! i)"
  shows "\<exists>d. dictionary vs = Inr d \<and>
           (\<forall>k. (\<forall>j. j < length vs \<and> even j \<longrightarrow> vs ! j \<noteq> VString k) \<longrightarrow> d k = None) \<and>
           (\<forall>k j. j < length vs \<and> even j \<and> vs ! j = VString k \<and>
                  (\<forall>j'. j < j' \<and> j' < length vs \<and> even j' \<longrightarrow> vs ! j' \<noteq> VString k)
                  \<longrightarrow> d k = Some (vs ! (j + 1)))"
proof -
  have k: "\<forall>j. 0 \<le> j \<and> j < length vs \<and> even j \<longrightarrow> is_VString (vs ! j)" using keys by simp
  have "dictionary vs = dictionary_loop vs 0 Map.empty"
    using ev by (simp add: dictionary_def)
  with dictionary_loop_ok[OF ev _ k, of Map.empty]
  show ?thesis by simp
qed

lemma last_occurrence:
  assumes "j < length vs" "even j" "vs ! j = v"
  shows "\<exists>m. m < length vs \<and> even m \<and> vs ! m = v \<and>
           (\<forall>j'. m < j' \<and> j' < length vs \<and> even j' \<longrightarrow> vs ! j' \<noteq> v)"
proof -
  let ?S = "{m. m < length vs \<and> even m \<and> vs ! m = v}"
  have fin: "finite ?S" by simp
  have ne: "?S \<noteq> {}" using assms by blast
  have mem: "Max ?S \<in> ?S" using Max_in[OF fin ne] .
  have ge: "j' \<le> Max ?S" if "j' \<in> ?S" for j' using Max_ge[OF fin that] .
  have "vs ! j' \<noteq> v" if "Max ?S < j'" "j' < length vs" "even j'" for j'
  proof
    assume "vs ! j' = v"
    with that have "j' \<in> ?S" by simp
    from ge[OF this] that(1) show False by simp
  qed
  with mem show ?thesis by blast
qed

lemma dictionary_dom:
  assumes ev: "even (length vs)"
    and keys: "\<forall>i<length vs. even i \<longrightarrow> is_VString (vs ! i)"
    and d: "dictionary vs = Inr d"
  shows "VString ` dom d = set (key_args vs)"
proof -
  from dictionary_ok[OF ev keys] obtain d' where d': "dictionary vs = Inr d'"
    and none': "\<forall>k. (\<forall>j. j < length vs \<and> even j \<longrightarrow> vs ! j \<noteq> VString k) \<longrightarrow> d' k = None"
    and some': "\<forall>k j. j < length vs \<and> even j \<and> vs ! j = VString k \<and>
                  (\<forall>j'. j < j' \<and> j' < length vs \<and> even j' \<longrightarrow> vs ! j' \<noteq> VString k)
                  \<longrightarrow> d' k = Some (vs ! (j + 1))"
    by (elim exE conjE)
  have dd: "d' = d" using d d' by simp
  have dom_iff: "k \<in> dom d \<longleftrightarrow> (\<exists>j. j < length vs \<and> even j \<and> vs ! j = VString k)" for k
  proof
    assume "k \<in> dom d"
    then have "d' k \<noteq> None" by (simp add: dom_def dd)
    show "\<exists>j. j < length vs \<and> even j \<and> vs ! j = VString k"
    proof (rule ccontr)
      assume "\<not> (\<exists>j. j < length vs \<and> even j \<and> vs ! j = VString k)"
      then have "\<forall>j. j < length vs \<and> even j \<longrightarrow> vs ! j \<noteq> VString k" by simp
      with none'[THEN spec, of k] \<open>d' k \<noteq> None\<close> show False by simp
    qed
  next
    assume "\<exists>j. j < length vs \<and> even j \<and> vs ! j = VString k"
    then obtain j where "j < length vs" "even j" "vs ! j = VString k" by blast
    from last_occurrence[OF this] obtain m where m: "m < length vs \<and> even m \<and> vs ! m = VString k \<and>
      (\<forall>j'. m < j' \<and> j' < length vs \<and> even j' \<longrightarrow> vs ! j' \<noteq> VString k)" by (elim exE)
    have "d' k = Some (vs ! (m + 1))" using some'[THEN spec, THEN spec, of m k] m by simp
    then show "k \<in> dom d" by (simp add: dom_def dd)
  qed
  have str: "\<exists>k. vs ! j = VString k" if "j < length vs" "even j" for j
  proof -
    from keys that have "is_VString (vs ! j)" by blast
    then show ?thesis by (cases "vs ! j") simp_all
  qed
  show ?thesis
  proof (intro set_eqI iffI)
    fix x assume "x \<in> VString ` dom d"
    then obtain k where "x = VString k" "k \<in> dom d" by blast
    with dom_iff[of k] obtain j where "j < length vs" "even j" "vs ! j = x" by blast
    then show "x \<in> set (key_args vs)" unfolding set_key_args[OF ev] by blast
  next
    fix x assume "x \<in> set (key_args vs)"
    then obtain j where j: "j < length vs" "even j" "x = vs ! j"
      unfolding set_key_args[OF ev] by blast
    with str[of j] obtain k where k: "vs ! j = VString k" by blast
    with j dom_iff[of k] have "k \<in> dom d" by blast
    with j k show "x \<in> VString ` dom d" by simp
  qed
qed

lemma length_key_args: "length (key_args vs) = length vs div 2"
  by (simp add: key_args_def)

lemma dictionary_card:
  assumes ev: "even (length vs)"
    and keys: "\<forall>i<length vs. even i \<longrightarrow> is_VString (vs ! i)"
    and d: "dictionary vs = Inr d"
  shows "finite (dom d)"
    and "distinct (key_args vs) \<Longrightarrow> card (dom d) = length vs div 2"
    and "\<not> distinct (key_args vs) \<Longrightarrow> card (dom d) < length vs div 2"
proof -
  have img: "VString ` dom d = set (key_args vs)" by (rule dictionary_dom[OF ev keys d])
  have inj: "inj_on VString (dom d)" by (simp add: inj_on_def)
  show fin: "finite (dom d)"
    using finite_imageD[OF _ inj] img by simp
  have card: "card (dom d) = card (set (key_args vs))"
    using card_image[OF inj] img by simp
  show "card (dom d) = length vs div 2" if "distinct (key_args vs)"
    using distinct_card[OF that] card by (simp add: length_key_args)
  show "card (dom d) < length vs div 2" if "\<not> distinct (key_args vs)"
  proof -
    have "card (set (key_args vs)) \<le> length (key_args vs)" by (rule card_length)
    moreover have "card (set (key_args vs)) \<noteq> length (key_args vs)"
      using that card_distinct by blast
    ultimately show ?thesis using card by (simp add: length_key_args)
  qed
qed

text \<open>
  C3: \<open>dictionary\<close> fails with \<open>ArityError\<close> on every argument list of odd length,
  whatever the values; it fails with \<open>KeyTypeError\<close> on every argument list of even
  length that holds a value other than a string at some even index; in every other case
  it returns a map. The two errors are different values.
\<close>

theorem dictionary_failures:
  "(odd (length vs) \<longrightarrow> dictionary vs = Inl ArityError) \<and>
   (even (length vs) \<and> (\<exists>i<length vs. even i \<and> \<not> is_VString (vs ! i))
      \<longrightarrow> dictionary vs = Inl KeyTypeError) \<and>
   (even (length vs) \<and> (\<forall>i<length vs. even i \<longrightarrow> is_VString (vs ! i))
      \<longrightarrow> (\<exists>d. dictionary vs = Inr d)) \<and>
   ArityError \<noteq> KeyTypeError"
proof (intro conjI impI)
  assume "odd (length vs)"
  then show "dictionary vs = Inl ArityError"
    by (simp add: dictionary_def odd_iff_mod_2_eq_one)
next
  assume a: "even (length vs) \<and> (\<exists>i<length vs. even i \<and> \<not> is_VString (vs ! i))"
  then have "\<exists>j. 0 \<le> j \<and> j < length vs \<and> even j \<and> \<not> is_VString (vs ! j)" by blast
  from dictionary_loop_bad_key[OF _ _ this, of Map.empty] a
  show "dictionary vs = Inl KeyTypeError"
    by (simp add: dictionary_def)
next
  assume a: "even (length vs) \<and> (\<forall>i<length vs. even i \<longrightarrow> is_VString (vs ! i))"
  then show "\<exists>d. dictionary vs = Inr d"
    using dictionary_ok[of vs] by blast
next
  show "ArityError \<noteq> KeyTypeError" by (simp add: ArityError_def KeyTypeError_def)
qed

theorem dictionary_failures_witness:
  "dictionary [VString ''a''] = Inl ArityError \<and>
   dictionary [VString ''a'', VInt 1, VBool True, VNil] = Inl KeyTypeError \<and>
   (\<exists>d. dictionary [VString ''a'', VInt 1] = Inr d)"
proof -
  have "\<exists>i<length [VString ''a'', VInt 1, VBool True, VNil]. even i \<and>
          \<not> is_VString ([VString ''a'', VInt 1, VBool True, VNil] ! i)"
    by (intro exI[of _ 2]) simp
  moreover have "\<forall>i<length [VString ''a'', VInt 1]. even i \<longrightarrow>
          is_VString ([VString ''a'', VInt 1] ! i)"
    by (simp add: less_Suc_eq)
  ultimately show ?thesis
    using dictionary_failures[of "[VString ''a'']"]
      dictionary_failures[of "[VString ''a'', VInt 1, VBool True, VNil]"]
      dictionary_failures[of "[VString ''a'', VInt 1]"]
    by simp
qed

text \<open>
  C4: on an argument list of even length whose values at the even positions are strings,
  \<open>dictionary\<close> returns a map whose keys are exactly those strings. It has
  \<open>length vs div 2\<close> entries when the keys are pairwise distinct and fewer when a key
  repeats, and every key is mapped to the value that follows its last occurrence at a
  key position (the last write wins).
\<close>

theorem dictionary_entries:
  assumes "even (length vs)"
    and "\<forall>i<length vs. even i \<longrightarrow> is_VString (vs ! i)"
  shows "\<exists>d. dictionary vs = Inr d \<and> finite (dom d) \<and>
           (distinct (key_args vs) \<longrightarrow> card (dom d) = length vs div 2) \<and>
           (\<not> distinct (key_args vs) \<longrightarrow> card (dom d) < length vs div 2) \<and>
           (\<forall>i k. i < length vs \<and> even i \<and> vs ! i = VString k \<and>
                  (\<forall>j. i < j \<and> j < length vs \<and> even j \<longrightarrow> vs ! j \<noteq> VString k)
                  \<longrightarrow> d k = Some (vs ! (i + 1))) \<and>
           (\<forall>k. k \<in> dom d \<longleftrightarrow> VString k \<in> set (key_args vs))"
proof -
  from dictionary_ok[OF assms] obtain d where d: "dictionary vs = Inr d"
    and last: "\<forall>k j. j < length vs \<and> even j \<and> vs ! j = VString k \<and>
                  (\<forall>j'. j < j' \<and> j' < length vs \<and> even j' \<longrightarrow> vs ! j' \<noteq> VString k)
                  \<longrightarrow> d k = Some (vs ! (j + 1))"
    by blast
  have "\<forall>k. k \<in> dom d \<longleftrightarrow> VString k \<in> set (key_args vs)"
    using dictionary_dom[OF assms d] by (auto simp: image_iff)
  with d last dictionary_card[OF assms d] show ?thesis by blast
qed

theorem dictionary_entries_witness:
  "\<exists>d. dictionary [VString ''a'', VInt 1, VString ''b'', VInt 2, VString ''a'', VInt 3] = Inr d \<and>
       card (dom d) < 3 \<and> d ''a'' = Some (VInt 3) \<and> d ''b'' = Some (VInt 2)"
proof -
  let ?vs = "[VString ''a'', VInt 1, VString ''b'', VInt 2, VString ''a'', VInt 3]"
  have len: "even (length ?vs)" by simp
  have keys: "\<forall>i<length ?vs. even i \<longrightarrow> is_VString (?vs ! i)"
  proof (intro allI impI)
    fix i :: nat assume "i < length ?vs" "even i"
    then have "i < 6" "even i" by simp_all
    then have "i = 0 \<or> i = 2 \<or> i = 4" by presburger
    then show "is_VString (?vs ! i)" by auto
  qed
  have dup: "\<not> distinct (key_args ?vs)"
    by code_simp
  have la: "\<forall>j. 4 < j \<and> j < length ?vs \<and> even j \<longrightarrow> ?vs ! j \<noteq> VString ''a''"
  proof (intro allI impI)
    fix j assume "4 < j \<and> j < length ?vs \<and> even j"
    then have "4 < j" "j < 6" "even j" by simp_all
    then have False by presburger
    then show "?vs ! j \<noteq> VString ''a''" ..
  qed
  have lb: "\<forall>j. 2 < j \<and> j < length ?vs \<and> even j \<longrightarrow> ?vs ! j \<noteq> VString ''b''"
  proof (intro allI impI)
    fix j assume "2 < j \<and> j < length ?vs \<and> even j"
    then have "2 < j" "j < 6" "even j" by simp_all
    then have "j = 4" by presburger
    then show "?vs ! j \<noteq> VString ''b''" by simp
  qed
  from dictionary_entries[OF len keys] obtain d where d: "dictionary ?vs = Inr d"
    and c: "\<not> distinct (key_args ?vs) \<longrightarrow> card (dom d) < length ?vs div 2"
    and l: "\<forall>i k. i < length ?vs \<and> even i \<and> ?vs ! i = VString k \<and>
                  (\<forall>j. i < j \<and> j < length ?vs \<and> even j \<longrightarrow> ?vs ! j \<noteq> VString k)
                  \<longrightarrow> d k = Some (?vs ! (i + 1))"
    by (elim exE conjE)
  have "card (dom d) < 3" using c dup by simp
  moreover have "d ''a'' = Some (VInt 3)"
    using l[THEN spec, THEN spec, of 4 "''a''"] la by simp
  moreover have "d ''b'' = Some (VInt 2)"
    using l[THEN spec, THEN spec, of 2 "''b''"] lb by simp
  ultimately show ?thesis using d by blast
qed

section \<open>Properties of htmlEscape\<close>

lemma EscapeString_plain:
  "\<forall>c\<in>set s. c \<notin> html_special \<Longrightarrow> EscapeString s = s"
  by (induction s) (auto simp: EscapeString_def escape_byte_def html_special_def)

text \<open>
  C10: for every input that coerces to a string \<open>s\<close> holding none of the five characters
  \<^verbatim>\<open>< > & '\<close> and the double quote, in particular for the string \<open>s\<close> itself,
  \<open>htmlEscape\<close> succeeds and returns \<open>s\<close> unchanged.
\<close>

theorem htmlEscape_plain:
  assumes "ToStringE v = Inr s" and "\<forall>c\<in>set s. c \<notin> html_special"
  shows "htmlEscape v = Inr s \<and> htmlEscape (VString s) = Inr s"
  using assms by (simp add: htmlEscape_def EscapeString_plain)

theorem htmlEscape_plain_witness:
  "htmlEscape (VString ''a=b; c'') = Inr ''a=b; c'' \<and> htmlEscape (VInt (- 42)) = Inr ''-42''"
proof -
  have a: "\<forall>c\<in>set ''a=b; c''. c \<notin> html_special" by (simp add: html_special_def)
  have b: "\<forall>c\<in>set ''-42''. c \<notin> html_special" by (simp add: html_special_def)
  have c: "ToStringE (VInt (- 42)) = Inr ''-42''"
    by (simp add: Itoa_def format_digits.simps digit_chars_def)
  show ?thesis
    using htmlEscape_plain[of "VString ''a=b; c''" "''a=b; c''"] a
      htmlEscape_plain[OF c b] by simp
qed

section \<open>Properties of split\<close>

subsection \<open>The index of the first instance\<close>

lemma Index_empty_sep [simp]: "Index s [] = 0"
  by (cases s) simp_all

lemma Index_found:
  "0 \<le> Index s sep \<Longrightarrow> prefix sep (drop (nat (Index s sep)) s)"
proof (induction s)
  case Nil
  then show ?case by (simp split: if_splits)
next
  case (Cons c s)
  show ?case
  proof (cases "prefix sep (c # s)")
    case True
    then show ?thesis by simp
  next
    case False
    with Cons.prems have nn: "0 \<le> Index s sep" by (simp add: Let_def split: if_splits)
    with False have "Index (c # s) sep = Index s sep + 1" by (simp add: Let_def)
    moreover have "nat (Index s sep + 1) = Suc (nat (Index s sep))" using nn by simp
    ultimately show ?thesis using Cons.IH[OF nn] by simp
  qed
qed

lemma Index_first:
  "0 \<le> Index s sep \<Longrightarrow> j < nat (Index s sep) \<Longrightarrow> \<not> prefix sep (drop j s)"
proof (induction s arbitrary: j)
  case Nil
  then show ?case by (simp split: if_splits)
next
  case (Cons c s)
  show ?case
  proof (cases "prefix sep (c # s)")
    case True
    with Cons.prems show ?thesis by simp
  next
    case False
    with Cons.prems have nn: "0 \<le> Index s sep" by (simp add: Let_def split: if_splits)
    with False have eq: "Index (c # s) sep = Index s sep + 1" by (simp add: Let_def)
    show ?thesis
    proof (cases j)
      case 0
      with False show ?thesis by simp
    next
      case (Suc j')
      with Cons.prems(2) eq nn have "j' < nat (Index s sep)" by simp
      from Cons.IH[OF nn this] Suc show ?thesis by simp
    qed
  qed
qed

lemma Index_absent:
  "Index s sep < 0 \<Longrightarrow> \<not> prefix sep (drop j s)"
proof (induction s arbitrary: j)
  case Nil
  then show ?case by (simp split: if_splits)
next
  case (Cons c s)
  then have np: "\<not> prefix sep (c # s)" and neg: "Index s sep < 0"
    by (auto simp: Let_def split: if_splits)
  show ?case
  proof (cases j)
    case 0
    with np show ?thesis by simp
  next
    case (Suc j')
    with Cons.IH[OF neg, of j'] show ?thesis by simp
  qed
qed

lemma Index_neg_iff: "Index s sep < 0 \<longleftrightarrow> Index s sep = - 1"
  using Index_range[of s sep] by auto

lemma sublist_drop_prefix: "sublist xs ys \<longleftrightarrow> (\<exists>j. prefix xs (drop j ys))"
proof
  assume "sublist xs ys"
  then obtain ps ss where "ys = ps @ xs @ ss" by (auto simp: sublist_def)
  then have "prefix xs (drop (length ps) ys)" by simp
  then show "\<exists>j. prefix xs (drop j ys)" ..
next
  assume "\<exists>j. prefix xs (drop j ys)"
  then obtain j zs where "drop j ys = xs @ zs" by (auto simp: prefix_def)
  then have "ys = take j ys @ xs @ zs" by (metis append_take_drop_id)
  then show "sublist xs ys" unfolding sublist_def by blast
qed

lemma Index_absent_iff: "Index s sep = - 1 \<longleftrightarrow> \<not> sublist sep s"
proof
  assume "Index s sep = - 1"
  then have "Index s sep < 0" by simp
  then show "\<not> sublist sep s" using Index_absent by (simp add: sublist_drop_prefix)
next
  assume ns: "\<not> sublist sep s"
  show "Index s sep = - 1"
  proof (rule ccontr)
    assume "Index s sep \<noteq> - 1"
    then have "0 \<le> Index s sep" using Index_range[of s sep] by auto
    from Index_found[OF this] ns show False by (auto simp: sublist_drop_prefix)
  qed
qed

lemma Index_eqI:
  "prefix sep (drop k t) \<Longrightarrow> k \<le> length t \<Longrightarrow> (\<And>j. j < k \<Longrightarrow> \<not> prefix sep (drop j t))
     \<Longrightarrow> Index t sep = int k"
proof (induction t arbitrary: k)
  case Nil
  then show ?case by simp
next
  case (Cons c t)
  show ?case
  proof (cases k)
    case 0
    with Cons.prems(1) show ?thesis by simp
  next
    case (Suc k')
    have np: "\<not> prefix sep (c # t)" using Cons.prems(3)[of 0] Suc by simp
    have "Index t sep = int k'"
    proof (rule Cons.IH)
      show "prefix sep (drop k' t)" using Cons.prems(1) Suc by simp
      show "k' \<le> length t" using Cons.prems(2) Suc by simp
      show "\<not> prefix sep (drop j t)" if "j < k'" for j
        using Cons.prems(3)[of "Suc j"] that Suc by simp
    qed
    with np Suc show ?thesis by (simp add: Let_def)
  qed
qed

subsection \<open>Cutting at a non-empty separator\<close>

lemma split_pieces_nonempty: "split_pieces s sep \<noteq> []"
  by (subst split_pieces.simps) (simp add: Let_def)

lemma split_pieces_absent: "Index s sep = - 1 \<Longrightarrow> split_pieces s sep = [s]"
  by (subst split_pieces.simps) simp

lemma split_pieces_found:
  "Index s sep \<noteq> - 1 \<Longrightarrow> sep \<noteq> [] \<Longrightarrow>
   split_pieces s sep =
     take (nat (Index s sep)) s # split_pieces (drop (nat (Index s sep) + length sep) s) sep"
  by (subst split_pieces.simps) (simp add: Let_def)

lemma split_pieces_single:
  assumes "sep \<noteq> []" "length (split_pieces s sep) = 1"
  shows "Index s sep = - 1"
proof (rule ccontr)
  assume "Index s sep \<noteq> - 1"
  from split_pieces_found[OF this assms(1)] assms(2) split_pieces_nonempty
  show False by (auto simp: Suc_length_conv)  
qed

lemma Count_loop_pieces:
  "sep \<noteq> [] \<Longrightarrow> Count_loop s sep n = n + int (length (split_pieces s sep)) - 1"
proof (induction s sep n rule: Count_loop.induct)
  case (1 s substr n)
  show ?case
  proof (cases "Index s substr = - 1")
    case True
    then show ?thesis
      by (simp add: Count_loop.simps[of s substr n] split_pieces_absent)
  next
    case False
    with "1.IH"[OF refl _ "1.prems"] "1.prems"
    show ?thesis
      by (simp add: Count_loop.simps[of s substr n] split_pieces_found Let_def)
  qed
qed

lemma Count_pieces:
  "sep \<noteq> [] \<Longrightarrow> Count s sep + 1 = int (length (split_pieces s sep))"
  by (simp add: Count_def Count_loop_pieces)

lemma length_split_pieces: "sep \<noteq> [] \<Longrightarrow> length (split_pieces s sep) \<le> length s + 1"
proof (induction s sep rule: split_pieces.induct)
  case (1 s sep)
  show ?case
  proof (cases "Index s sep = - 1")
    case True
    then show ?thesis by (simp add: split_pieces_absent)
  next
    case False
    from Index_nonempty[OF "1.prems" False]
    have "length (drop (nat (Index s sep) + length sep) s) < length s"
      by (cases s) simp_all
    with "1.IH"[OF refl _ "1.prems"] False "1.prems"
    show ?thesis by (simp add: split_pieces_found)
  qed
qed

lemma genSplit_loop_pieces:
  assumes "sep \<noteq> []"
    and "int (length (split_pieces s sep)) = n - int i + 1"
    and "length a = nat n + 1"
  shows "(case genSplit_loop a s sep 0 n i of (a', s', i') \<Rightarrow> take (i' + 1) (a'[i' := s']))
           = take i a @ split_pieces s sep"
  using assms
proof (induction a s sep "0 :: int" n i rule: genSplit_loop.induct)
  case (1 a s sep n i)
  have in_range: "i < length a"
    using "1.prems"(2,3) split_pieces_nonempty[of s sep] by (cases "split_pieces s sep") auto
  show ?case
  proof (cases "int i < n")
    case True
    with "1.prems"(2) have "length (split_pieces s sep) \<noteq> 1" by simp
    then have found: "Index s sep \<noteq> - 1" using split_pieces_absent[of s sep] by auto
    then have m: "\<not> Index s sep < 0" using Index_range[of s sep] by auto
    let ?m = "Index s sep"
    let ?a = "a[i := take (nat (?m + 0)) s]" and ?s = "drop (nat ?m + length sep) s"
    have len: "int (length (split_pieces ?s sep)) = n - int (i + 1) + 1"
      using "1.prems"(1,2) found by (simp add: split_pieces_found)
    have "(case genSplit_loop ?a ?s sep 0 n (i + 1) of (a', s', i') \<Rightarrow> take (i' + 1) (a'[i' := s']))
            = take (i + 1) ?a @ split_pieces ?s sep"
      using "1.hyps"[OF True refl m "1.prems"(1) len] "1.prems"(3) by simp
    moreover have "take (i + 1) ?a = take i a @ [take (nat ?m) s]"
      using in_range by (simp add: take_Suc_conv_app_nth)
    moreover have "genSplit_loop a s sep 0 n i = genSplit_loop ?a ?s sep 0 n (i + 1)"
      using True m by (subst genSplit_loop.simps) (simp add: Let_def)
    ultimately show ?thesis
      using found "1.prems"(1) by (simp add: split_pieces_found)
  next
    case False
    with "1.prems"(2) have "length (split_pieces s sep) \<le> 1" by simp
    moreover have "0 < length (split_pieces s sep)"
      using split_pieces_nonempty[of s sep] by (cases "split_pieces s sep") simp_all
    ultimately have "length (split_pieces s sep) = 1" by linarith
    then have "split_pieces s sep = [s]"
      using split_pieces_single[OF "1.prems"(1)] split_pieces_absent by blast
    moreover have "genSplit_loop a s sep 0 n i = (a, s, i)"
      using False by (subst genSplit_loop.simps) simp
    ultimately show ?thesis using in_range by (simp add: take_Suc_conv_app_nth)
  qed
qed

lemma Split_pieces:
  assumes "sep \<noteq> []"
  shows "Split s sep = split_pieces s sep"
proof -
  let ?n = "Count s sep + 1"
  have n: "?n = int (length (split_pieces s sep))" by (rule Count_pieces[OF assms])
  then have clamp: "\<not> ?n > int (length s) + 1"
    using length_split_pieces[OF assms, of s] by simp
  have pos: "0 < ?n" using n split_pieces_nonempty[of s sep] by simp
  let ?a = "replicate (nat ?n) []"
  have "(case genSplit_loop ?a s sep 0 (?n - 1) 0 of (a', s', i') \<Rightarrow> take (i' + 1) (a'[i' := s']))
          = take 0 ?a @ split_pieces s sep"
  proof (rule genSplit_loop_pieces[OF assms])
    show "int (length (split_pieces s sep)) = ?n - 1 - int 0 + 1" using n by simp
    show "length ?a = nat (?n - 1) + 1" using pos by simp
  qed
  then show ?thesis
    using assms clamp by (simp add: Split_def genSplit_def Let_def split: prod.splits)
qed

lemma Join_Cons: "rest \<noteq> [] \<Longrightarrow> Join (x # rest) sep = x @ sep @ Join rest sep"
  by (cases rest) simp_all

lemma Index_split:
  assumes "Index s sep \<noteq> - 1"
  shows "s = take (nat (Index s sep)) s @ sep @ drop (nat (Index s sep) + length sep) s"
proof -
  from assms have nn: "0 \<le> Index s sep" using Index_range[of s sep] by auto
  from Index_found[OF nn] obtain zs where zs: "drop (nat (Index s sep)) s = sep @ zs"
    by (auto simp: prefix_def)
  then have "drop (length sep) (drop (nat (Index s sep)) s) = zs" by simp
  then have "drop (nat (Index s sep) + length sep) s = zs" by (simp add: add.commute)
  with zs have "drop (nat (Index s sep)) s = sep @ drop (nat (Index s sep) + length sep) s"
    by simp
  then show ?thesis by (metis append_take_drop_id)
qed

lemma Join_split_pieces: "sep \<noteq> [] \<Longrightarrow> Join (split_pieces s sep) sep = s"
proof (induction s sep rule: split_pieces.induct)
  case (1 s sep)
  show ?case
  proof (cases "Index s sep = - 1")
    case True
    then show ?thesis by (simp add: split_pieces_absent)
  next
    case False
    have "Join (split_pieces s sep) sep =
            take (nat (Index s sep)) s @ sep @
            Join (split_pieces (drop (nat (Index s sep) + length sep) s) sep) sep"
      using False "1.prems" by (simp add: split_pieces_found Join_Cons split_pieces_nonempty)
    also have "\<dots> = take (nat (Index s sep)) s @ sep @ drop (nat (Index s sep) + length sep) s"
      using "1.IH"[OF refl _ "1.prems"] False "1.prems" by simp
    also have "\<dots> = s" using Index_split[OF False] by simp
    finally show ?thesis .
  qed
qed

lemma take_Index_no_sep:
  assumes "sep \<noteq> []" "Index s sep \<noteq> - 1"
  shows "\<not> sublist sep (take (nat (Index s sep)) s)"
proof
  let ?m = "nat (Index s sep)"
  from assms(2) have nn: "0 \<le> Index s sep" using Index_range[of s sep] by auto
  assume "sublist sep (take ?m s)"
  then obtain ps ss where eq: "take ?m s = ps @ sep @ ss" by (auto simp: sublist_def)
  then have "length ps + length sep \<le> ?m"
    by (metis length_append length_take min.cobounded2 le_add1 add.assoc le_trans)
  with assms(1) have lt: "length ps < ?m" by (cases sep) simp_all
  have "s = ps @ sep @ ss @ drop ?m s" using eq by (metis append_take_drop_id append.assoc)
  then have "drop (length ps) s = sep @ ss @ drop ?m s"
    by (metis append_eq_conv_conj)
  then have "prefix sep (drop (length ps) s)" by simp
  with Index_first[OF nn lt] show False by simp
qed

lemma take_Index_leftmost:
  assumes "Index s sep \<noteq> - 1"
  shows "Index (take (nat (Index s sep)) s @ sep) sep = int (length (take (nat (Index s sep)) s))"
proof (rule Index_eqI)
  let ?m = "nat (Index s sep)" and ?p = "take (nat (Index s sep)) s"
  from assms have nn: "0 \<le> Index s sep" using Index_range[of s sep] by auto
  show "prefix sep (drop (length ?p) (?p @ sep))" by simp
  show "length ?p \<le> length (?p @ sep)" by simp
  fix j assume j: "j < length ?p"
  then have jm: "j < ?m" by simp
  show "\<not> prefix sep (drop j (?p @ sep))"
  proof
    assume "prefix sep (drop j (?p @ sep))"
    then have "prefix sep (drop j ?p @ sep)" using j by simp
    then have "prefix sep (drop j ?p @ sep @ drop (?m + length sep) s)"
      by (metis append.assoc prefix_prefix)
    moreover have "drop j s = drop j ?p @ sep @ drop (?m + length sep) s"
      using Index_split[OF assms] j by (metis drop_append less_imp_le_nat diff_is_0_eq drop_0 append.assoc)
    ultimately have "prefix sep (drop j s)" by simp
    with Index_first[OF nn jm] show False by simp
  qed
qed

lemma split_pieces_no_sep:
  "sep \<noteq> [] \<Longrightarrow> p \<in> set (split_pieces s sep) \<Longrightarrow> \<not> sublist sep p"
proof (induction s sep rule: split_pieces.induct)
  case (1 s sep)
  show ?case
  proof (cases "Index s sep = - 1")
    case True
    with "1.prems" show ?thesis by (simp add: split_pieces_absent Index_absent_iff)
  next
    case False
    with "1.prems" have "p = take (nat (Index s sep)) s \<or>
        p \<in> set (split_pieces (drop (nat (Index s sep) + length sep) s) sep)"
      by (simp add: split_pieces_found)
    then show ?thesis
      using take_Index_no_sep[OF "1.prems"(1) False] "1.IH"[OF refl _ "1.prems"(1)] False "1.prems"(1)
      by auto
  qed
qed

lemma split_pieces_leftmost:
  "sep \<noteq> [] \<Longrightarrow> Suc i < length (split_pieces s sep) \<Longrightarrow>
   Index (split_pieces s sep ! i @ sep) sep = int (length (split_pieces s sep ! i))"
proof (induction s sep arbitrary: i rule: split_pieces.induct)
  case (1 s sep)
  show ?case
  proof (cases "Index s sep = - 1")
    case True
    with "1.prems" show ?thesis by (simp add: split_pieces_absent)
  next
    case False
    note found = split_pieces_found[OF False "1.prems"(1)]
    show ?thesis
    proof (cases i)
      case 0
      then show ?thesis using take_Index_leftmost[OF False] by (simp add: found)
    next
      case (Suc i')
      with "1.prems"(2) have "Suc i' < length (split_pieces (drop (nat (Index s sep) + length sep) s) sep)"
        by (simp add: found)
      from "1.IH"[OF refl _ "1.prems"(1) this] False "1.prems"(1) Suc
      show ?thesis by (simp add: found)
    qed
  qed
qed

subsection \<open>Cutting into UTF-8 sequences\<close>

lemma RuneCount_step_size:
  "RuneCount_step s = 1 \<or> RuneCount_step s = utf8_first (s ! 0) mod 8 \<and>
     utf8_first (s ! 0) mod 8 \<in> {2, 3, 4} \<and> utf8_first (s ! 0) mod 8 \<le> length s"
proof (cases "utf8_first (s ! 0) = 0xF0 \<or> utf8_first (s ! 0) = 0xF1")
  case True
  then show ?thesis by (auto simp: RuneCount_step_def Let_def utf8_first_ascii)
next
  case False
  then have "utf8_first (s ! 0) mod 8 \<in> {2, 3, 4}" using utf8_first_size by blast
  then show ?thesis by (simp add: RuneCount_step_def Let_def)
qed

lemma RuneCount_step_le: "s \<noteq> [] \<Longrightarrow> RuneCount_step s \<le> length s"
  using RuneCount_step_size[of s] by (cases s) auto

lemma decode_size: "s \<noteq> [] \<Longrightarrow> snd (DecodeRuneInString s) = RuneCount_step s"
proof -
  assume ne: "s \<noteq> []"
  then have len: "\<not> length s < 1" by (cases s) simp_all
  consider (ascii) "utf8_first (s ! 0) = 0xF0" | (bad) "utf8_first (s ! 0) = 0xF1"
    | (multi) "utf8_first (s ! 0) \<noteq> 0xF0" "utf8_first (s ! 0) \<noteq> 0xF1" by blast
  then show ?thesis
  proof cases
    case ascii
    then have "(of_char (s ! 0) :: nat) < 0x80" by (simp add: utf8_first_ascii)
    with ascii len show ?thesis
      by (simp add: RuneCount_step_def DecodeRuneInString_def Let_def)
  next
    case bad
    then have "\<not> (of_char (s ! 0) :: nat) < 0x80" using utf8_first_ascii[of "s ! 0"] by simp
    with bad len show ?thesis
      by (simp add: RuneCount_step_def DecodeRuneInString_def Let_def)
  next
    case multi
    then have sz: "utf8_first (s ! 0) mod 8 \<in> {2, 3, 4}" using utf8_first_size by blast
    from multi utf8_first_cases[of "s ! 0"] have lt: "\<not> utf8_first (s ! 0) \<ge> 0xF0" by auto
    from multi have na: "\<not> (of_char (s ! 0) :: nat) < 0x80" by (simp add: utf8_first_ascii)
    show ?thesis
      unfolding RuneCount_step_def DecodeRuneInString_def Let_def
      using sz lt na len multi by (auto simp: not_less)
  qed
qed

lemma explode_pieces_Nil [simp]: "explode_pieces [] = []"
  by (subst explode_pieces.simps) simp

lemma explode_pieces_Cons:
  "s \<noteq> [] \<Longrightarrow> explode_pieces s =
     take (RuneCount_step s) s # explode_pieces (drop (RuneCount_step s) s)"
  by (subst explode_pieces.simps) simp

lemma RuneCount_loop_pieces: "RuneCount_loop s n = n + length (explode_pieces s)"
proof (induction s n rule: RuneCount_loop.induct)
  case (1 s n)
  show ?case
  proof (cases "s = []")
    case True
    then show ?thesis by (simp add: RuneCount_loop.simps[of "[]" n])
  next
    case False
    with "1.IH"[OF False] show ?thesis
      by (simp add: RuneCount_loop.simps[of s n] explode_pieces_Cons)
  qed
qed

lemma RuneCount_pieces: "RuneCountInString s = length (explode_pieces s)"
  by (simp add: RuneCountInString_def RuneCount_loop_pieces)

lemma concat_explode_pieces: "concat (explode_pieces s) = s"
proof (induction s rule: explode_pieces.induct)
  case (1 s)
  show ?case
  proof (cases "s = []")
    case True
    then show ?thesis by simp
  next
    case False
    with "1.IH"[OF False] show ?thesis by (simp add: explode_pieces_Cons)
  qed
qed

lemma explode_pieces_single:
  assumes "length (explode_pieces s) = 1"
  shows "explode_pieces s = [s]"
proof -
  from assms obtain p where p: "explode_pieces s = [p]"
    by (cases "explode_pieces s") auto
  with concat_explode_pieces[of s] show ?thesis by simp
qed

lemma explode_loop_pieces:
  assumes "int (length (explode_pieces s)) = n - int i"
    and "length a = nat n"
    and "int i < n"
  shows "(case explode_loop a s n i of (a', s') \<Rightarrow> a'[nat (n - 1) := s'])
           = take i a @ explode_pieces s"
  using assms
proof (induction a s n i rule: explode_loop.induct)
  case (1 a s n i)
  have in_range: "i < length a" using "1.prems"(2,3) by simp
  show ?case
  proof (cases "int i < n - 1")
    case True
    with "1.prems"(1) have "2 \<le> length (explode_pieces s)" by simp
    then have ne: "s \<noteq> []" by (cases "s = []") simp_all
    let ?size = "snd (DecodeRuneInString s)"
    have size: "?size = RuneCount_step s" by (rule decode_size[OF ne])
    let ?a = "a[i := take ?size s]" and ?s = "drop ?size s"
    have len: "int (length (explode_pieces ?s)) = n - int (i + 1)"
      using "1.prems"(1) ne by (simp add: explode_pieces_Cons size)
    have "(case explode_loop ?a ?s n (i + 1) of (a', s') \<Rightarrow> a'[nat (n - 1) := s'])
            = take (i + 1) ?a @ explode_pieces ?s"
      using "1.IH"[OF True refl len] "1.prems"(2) True by simp
    moreover have "take (i + 1) ?a = take i a @ [take ?size s]"
      using in_range by (simp add: take_Suc_conv_app_nth)
    moreover have "explode_loop a s n i = explode_loop ?a ?s n (i + 1)"
      using True by (subst explode_loop.simps) (simp add: Let_def)
    ultimately show ?thesis using ne by (simp add: explode_pieces_Cons size)
  next
    case False
    with "1.prems"(1,3) have one: "length (explode_pieces s) = 1" by simp
    from False "1.prems"(3) have i: "nat (n - 1) = i" by simp
    have "length a = Suc i" using "1.prems"(2) i "1.prems"(3) by simp
    then have "a[i := s] = take i a @ [s]"
      by (metis lessI take_all order_refl upd_conv_take_nth_drop drop_all Suc_leI append_Nil2)
    moreover have "explode_loop a s n i = (a, s)"
      using False by (subst explode_loop.simps) simp
    ultimately show ?thesis using explode_pieces_single[OF one] i by simp
  qed
qed

lemma explode_eq_pieces: "explode s (- 1) = explode_pieces s"
proof (cases "s = []")
  case True
  then show ?thesis
    by (simp add: explode_def RuneCount_pieces Let_def explode_loop.simps[of _ _ 0 0])
next
  case False
  let ?n = "int (length (explode_pieces s))"
  have pos: "0 < ?n" using False by (simp add: explode_pieces_Cons)
  let ?a = "replicate (nat ?n) ([] :: string)"
  have "(case explode_loop ?a s ?n 0 of (a', s') \<Rightarrow> a'[nat (?n - 1) := s'])
          = take 0 ?a @ explode_pieces s"
    by (rule explode_loop_pieces) (use pos in simp_all)
  then show ?thesis
    using pos by (simp add: explode_def RuneCount_pieces Let_def split: prod.splits)
qed

lemma RuneCount_step_single: "RuneCount_step [c] = 1"
  using RuneCount_step_size[of "[c]"] by auto

lemma RuneCount_step_take:
  assumes "s \<noteq> []"
  shows "RuneCount_step (take (RuneCount_step s) s) = RuneCount_step s"
proof (cases "RuneCount_step s = 1")
  case True
  with assms have "take (RuneCount_step s) s = [s ! 0]" by (cases s) simp_all
  with True show ?thesis by (simp add: RuneCount_step_single)
next
  case False
  let ?k = "utf8_first (s ! 0) mod 8"
  from False RuneCount_step_size[of s]
  have k: "RuneCount_step s = ?k" "?k \<in> {2, 3, 4}" "?k \<le> length s" by auto
  let ?p = "take ?k s"
  have lenp: "length ?p = ?k" using k(3) by simp
  have nth: "\<And>j. j < ?k \<Longrightarrow> ?p ! j = s ! j" by simp
  have p0: "?p ! 0 = s ! 0" using k(2) by (intro nth) auto
  have p1: "?p ! 1 = s ! 1" using k(2) by (intro nth) auto
  have p2: "?k \<noteq> 2 \<Longrightarrow> ?p ! 2 = s ! 2" using k(2) by (intro nth) auto
  have p3: "?k \<noteq> 2 \<Longrightarrow> ?k \<noteq> 3 \<Longrightarrow> ?p ! 3 = s ! 3" using k(2) by (intro nth) auto
  have "RuneCount_step ?p = RuneCount_step s"
    using False k(2,3) p2 p3 unfolding RuneCount_step_def Let_def p0 p1 lenp
    by (auto split: if_splits)
  then show ?thesis using k(1) by simp
qed

lemma explode_pieces_whole:
  "p \<in> set (explode_pieces s) \<Longrightarrow> p \<noteq> [] \<and> snd (DecodeRuneInString p) = length p"
proof (induction s rule: explode_pieces.induct)
  case (1 s)
  show ?case
  proof (cases "s = []")
    case True
    with "1.prems" show ?thesis by simp
  next
    case False
    let ?p = "take (RuneCount_step s) s"
    have ne: "?p \<noteq> []" using False RuneCount_step_pos[of s] by simp
    have "snd (DecodeRuneInString ?p) = RuneCount_step ?p" by (rule decode_size[OF ne])
    also have "\<dots> = RuneCount_step s" by (rule RuneCount_step_take[OF False])
    also have "\<dots> = length ?p" using RuneCount_step_le[OF False] by simp
    finally have "snd (DecodeRuneInString ?p) = length ?p" .
    with ne "1.prems" "1.IH"[OF False] False show ?thesis
      by (auto simp: explode_pieces_Cons)
  qed
qed

lemma Split_empty_sep: "Split s [] = explode_pieces s"
  by (simp add: Split_def genSplit_def explode_eq_pieces)

text \<open>
  C7 (as amended): for every input that coerces to a string \<open>s\<close> and every non-empty
  delimiter, \<open>split\<close> returns the pieces between the instances of the delimiter, found
  from the left and without overlap, empty pieces at the boundaries included: joined
  with the delimiter the pieces give \<open>s\<close> back, there is one piece more than
  \<^verbatim>\<open>strings.Count\<close> counts instances, no piece holds the delimiter, and each piece but
  the last ends where the first instance in the rest of the text starts. For the
  empty string the result is the single piece \<open>''''\<close>. In particular
  \<^verbatim>\<open>split("a,b,,c", ",")\<close> is \<^verbatim>\<open>["a","b","","c"]\<close> and \<^verbatim>\<open>split("", ",")\<close> is
  \<^verbatim>\<open>[""]\<close>.
\<close>

theorem split_literal:
  assumes "ToStringE a = Inr s" and "delimiter \<noteq> []"
  shows "(\<exists>parts. split a delimiter = Inr parts \<and>
           Join parts delimiter = s \<and>
           int (length parts) = Count s delimiter + 1 \<and>
           (\<forall>p\<in>set parts. \<not> sublist delimiter p) \<and>
           (\<forall>i. Suc i < length parts \<longrightarrow>
                Index (parts ! i @ delimiter) delimiter = int (length (parts ! i))) \<and>
           (s = [] \<longrightarrow> parts = [[]])) \<and>
         split (VString ''a,b,,c'') '','' = Inr [''a'', ''b'', [], ''c''] \<and>
         split (VString []) '','' = Inr [[]]"
proof (intro conjI)
  have eq: "split a delimiter = Inr (split_pieces s delimiter)"
    using assms by (simp add: split_def Split_pieces)
  have "s = [] \<longrightarrow> split_pieces s delimiter = [[]]"
    using assms(2) by (auto simp: split_pieces_absent)
  then show "\<exists>parts. split a delimiter = Inr parts \<and>
           Join parts delimiter = s \<and>
           int (length parts) = Count s delimiter + 1 \<and>
           (\<forall>p\<in>set parts. \<not> sublist delimiter p) \<and>
           (\<forall>i. Suc i < length parts \<longrightarrow>
                Index (parts ! i @ delimiter) delimiter = int (length (parts ! i))) \<and>
           (s = [] \<longrightarrow> parts = [[]])"
    using eq Join_split_pieces[OF assms(2)] Count_pieces[OF assms(2)]
      split_pieces_no_sep[OF assms(2)] split_pieces_leftmost[OF assms(2)]
    by simp
  show "split (VString ''a,b,,c'') '','' = Inr [''a'', ''b'', [], ''c'']"
    by code_simp
  show "split (VString []) '','' = Inr [[]]"
    by code_simp
qed

theorem split_literal_witness:
  "\<exists>parts. split (VInt 12345) ''34'' = Inr parts \<and>
           Join parts ''34'' = ''12345'' \<and>
           int (length parts) = Count ''12345'' ''34'' + 1 \<and>
           (\<forall>p\<in>set parts. \<not> sublist ''34'' p) \<and>
           (\<forall>i. Suc i < length parts \<longrightarrow>
                Index (parts ! i @ ''34'') ''34'' = int (length (parts ! i))) \<and>
           (''12345'' = [] \<longrightarrow> parts = [[]])"
proof -
  have a: "ToStringE (VInt 12345) = Inr ''12345''"
    by (simp add: Itoa_def format_digits.simps digit_chars_def)
  have b: "''34'' \<noteq> []" by simp
  show ?thesis using split_literal[OF a b] by (elim conjE)
qed

text \<open>
  The claim as first stated holds the single empty piece for every delimiter. With the
  empty delimiter the empty string is cut into no piece at all.
\<close>

theorem split_empty_counterexample:
  "split (VString []) [] = Inr []"
  by code_simp

text \<open>
  C9: with the empty delimiter \<open>split\<close> does not look for instances of a delimiter.
  It returns one element for each UTF-8 sequence of the string the input coerces to:
  the elements put together give the string back, there are as many as
  \<^verbatim>\<open>utf8.RuneCountInString\<close> counts code points, and each element is not empty and is
  taken up whole by decoding one code point (a byte that starts no valid sequence is
  an element of its own). A non-empty string gives at least one element, and the empty
  string gives the empty sequence, not the sequence of one empty string.
\<close>

theorem split_empty_delimiter:
  assumes "ToStringE a = Inr s"
  shows "\<exists>parts. split a [] = Inr parts \<and>
           concat parts = s \<and>
           length parts = RuneCountInString s \<and>
           (\<forall>p\<in>set parts. p \<noteq> [] \<and> snd (DecodeRuneInString p) = length p) \<and>
           (s = [] \<longrightarrow> parts = []) \<and>
           (s \<noteq> [] \<longrightarrow> parts \<noteq> [])"
proof -
  have "split a [] = Inr (explode_pieces s)"
    using assms by (simp add: split_def Split_empty_sep)
  moreover have "s \<noteq> [] \<longrightarrow> explode_pieces s \<noteq> []"
    by (simp add: explode_pieces_Cons)
  ultimately show ?thesis
    using concat_explode_pieces[of s] RuneCount_pieces[of s] explode_pieces_whole[of _ s]
    by auto
qed

theorem split_empty_delimiter_witness:
  "split (VString [CHR 0xC3, CHR 0xA9, CHR ''a'', CHR 0xE2, CHR 0x82, CHR 0xAC]) []
     = Inr [[CHR 0xC3, CHR 0xA9], ''a'', [CHR 0xE2, CHR 0x82, CHR 0xAC]] \<and>
   (\<exists>parts. split (VString [CHR 0xC3, CHR 0xA9, CHR ''a'', CHR 0xE2, CHR 0x82, CHR 0xAC]) [] = Inr parts \<and>
           length parts = RuneCountInString [CHR 0xC3, CHR 0xA9, CHR ''a'', CHR 0xE2, CHR 0x82, CHR 0xAC] \<and>
           (\<forall>p\<in>set parts. p \<noteq> [] \<and> snd (DecodeRuneInString p) = length p))"
proof -
  let ?s = "[CHR 0xC3, CHR 0xA9, CHR ''a'', CHR 0xE2, CHR 0x82, CHR 0xAC]"
  have a: "ToStringE (VString ?s) = Inr ?s" by simp
  have "split (VString ?s) [] = Inr [[CHR 0xC3, CHR 0xA9], ''a'', [CHR 0xE2, CHR 0x82, CHR 0xAC]]"
    by code_simp
  with split_empty_delimiter[OF a] show ?thesis by blast
qed

section \<open>Properties of querify\<close>

subsection \<open>The query values built from the dictionary\<close>


subsection \<open>The encoding of single-valued query values\<close>






lemma dictionary_error_iff:
  "(\<exists>e. dictionary params = Inl e) \<longleftrightarrow>
     odd (length params) \<or> (\<exists>i<length params. even i \<and> \<not> is_VString (params ! i))"
proof (cases "odd (length params)")
  case True
  then show ?thesis by (simp add: dictionary_def odd_iff_mod_2_eq_one)
next
  case ev: False
  show ?thesis
  proof (cases "\<exists>i<length params. even i \<and> \<not> is_VString (params ! i)")
    case True
    then have "\<exists>j. 0 \<le> j \<and> j < length params \<and> even j \<and> \<not> is_VString (params ! j)" by blast
    from dictionary_loop_bad_key[OF _ _ this, of Map.empty] ev True
    show ?thesis by (simp add: dictionary_def)
  next
    case False
    then have "\<forall>i<length params. even i \<longrightarrow> is_VString (params ! i)" by blast
    with dictionary_ok[of params] ev obtain d where "dictionary params = Inr d" by auto
    with ev False show ?thesis by simp
  qed
qed

text \<open>
  C5: \<open>querify\<close> fails exactly when the dictionary builder fails, that is on an argument
  list of odd length or with a value other than a string at an even index, whatever
  the iteration orders. Its error is then always the one value \<open>QuerifyError\<close>, which
  is neither of the two errors of the dictionary builder, so that the reason is not
  kept; in every other case it does not fail.
\<close>

theorem querify_failure:
  "((odd (length params) \<or> (\<exists>i<length params. even i \<and> \<not> is_VString (params ! i)))
      \<longleftrightarrow> querify visit collect params = Inl QuerifyError) \<and>
   ((\<exists>e. dictionary params = Inl e) \<longleftrightarrow> querify visit collect params = Inl QuerifyError) \<and>
   (\<forall>e. querify visit collect params = Inl e \<longrightarrow> e = QuerifyError) \<and>
   QuerifyError \<noteq> ArityError \<and> QuerifyError \<noteq> KeyTypeError"
proof -
  have a: "(\<exists>e. dictionary params = Inl e) \<longleftrightarrow> querify visit collect params = Inl QuerifyError"
    by (cases "dictionary params") (simp_all add: querify_def Let_def)
  have b: "\<forall>e. querify visit collect params = Inl e \<longrightarrow> e = QuerifyError"
    by (cases "dictionary params") (auto simp: querify_def Let_def)
  have c: "QuerifyError \<noteq> ArityError \<and> QuerifyError \<noteq> KeyTypeError"
    by (simp add: QuerifyError_def ArityError_def KeyTypeError_def)
  from a b c dictionary_error_iff[of params] show ?thesis by simp
qed

theorem querify_failure_witness:
  "querify [] [] [VString ''a''] = Inl QuerifyError \<and>
   querify [''a''] [''a''] [VString ''a'', VInt 1, VBool True, VNil] = Inl QuerifyError \<and>
   dictionary [VString ''a''] = Inl ArityError \<and>
   dictionary [VString ''a'', VInt 1, VBool True, VNil] = Inl KeyTypeError"
proof -
  have "\<exists>i<length [VString ''a'', VInt 1, VBool True, VNil]. even i \<and>
          \<not> is_VString ([VString ''a'', VInt 1, VBool True, VNil] ! i)"
    by (intro exI[of _ 2]) simp
  moreover have "dictionary [VString ''a''] = Inl ArityError" by (simp add: dictionary_def)
  moreover have "dictionary [VString ''a'', VInt 1, VBool True, VNil] = Inl KeyTypeError"
    by (simp add: dictionary_def dictionary_loop.simps)
  ultimately show ?thesis
    using querify_failure[of "[VString ''a'']" "[]" "[]"]
      querify_failure[of "[VString ''a'', VInt 1, VBool True, VNil]" "[''a'']" "[''a'']"]
    by simp
qed

subsection \<open>The escaped text and closed runs\<close>










section \<open>Properties of htmlUnescape\<close>

subsection \<open>Decoding one reference written by htmlEscape\<close>

lemma EncodeRune_ascii: "unat r \<le> 0x7F \<Longrightarrow> EncodeRune r = [char_of (unat r)]"
  by (simp add: EncodeRune_def)

lemma put_rune_ascii:
  assumes "unat r \<le> 0x7F" "dst < length b"
  shows "put_rune b dst r = Inr (b[dst := char_of (unat r)], dst + 1)"
  using assms by (simp add: put_rune_def EncodeRune_ascii upd_conv_take_nth_drop)

lemma name_loop_lt:
  assumes "s = CHR ''&'' # CHR ''l'' # CHR ''t'' # CHR '';'' # rest"
  shows "name_loop s 1 = 4"
  by (simp add: assms name_loop.simps)

lemma name_loop_gt:
  assumes "s = CHR ''&'' # CHR ''g'' # CHR ''t'' # CHR '';'' # rest"
  shows "name_loop s 1 = 4"
  by (simp add: assms name_loop.simps)

lemma name_loop_amp:
  assumes "s = CHR ''&'' # CHR ''a'' # CHR ''m'' # CHR ''p'' # CHR '';'' # rest"
  shows "name_loop s 1 = 5"
  by (simp add: assms name_loop.simps)

lemma numeric_loop_39:
  assumes "s = CHR ''&'' # CHR ''#'' # CHR ''3'' # CHR ''9'' # CHR '';'' # rest"
  shows "numeric_loop s False 2 0 = (5, 39)"
  by (simp add: assms numeric_loop.simps rune_def)

lemma numeric_loop_34:
  assumes "s = CHR ''&'' # CHR ''#'' # CHR ''3'' # CHR ''4'' # CHR '';'' # rest"
  shows "numeric_loop s False 2 0 = (5, 34)"
  by (simp add: assms numeric_loop.simps rune_def)

lemma drop_nonempty_lt: "drop src b = x # xs \<Longrightarrow> src < length b"
  by (cases "src < length b") simp_all

lemma unescapeEntity_lt:
  assumes "entity T ''lt;'' = 0x3C" and "drop src b = ''&lt;'' @ rest" and "dst \<le> src"
  shows "unescapeEntity T b dst src = Inr (b[dst := CHR ''<''], dst + 1, src + 4)"
proof -
  have s: "drop src b = CHR ''&'' # CHR ''l'' # CHR ''t'' # CHR '';'' # rest"
    using assms(2) by simp
  have dst: "dst < length b" using drop_nonempty_lt[OF s] assms(3) by simp
  have ch: "char_of (60 :: nat) = CHR ''<''" by code_simp
  have "put_rune b dst 0x3C = Inr (b[dst := CHR ''<''], dst + 1)"
    using put_rune_ascii[of "0x3C" dst b] dst ch by simp
  then show ?thesis
    unfolding unescapeEntity_def Let_def name_loop_lt[OF s]
    using assms(1) by (simp add: s)
qed

lemma unescapeEntity_gt:
  assumes "entity T ''gt;'' = 0x3E" and "drop src b = ''&gt;'' @ rest" and "dst \<le> src"
  shows "unescapeEntity T b dst src = Inr (b[dst := CHR ''>''], dst + 1, src + 4)"
proof -
  have s: "drop src b = CHR ''&'' # CHR ''g'' # CHR ''t'' # CHR '';'' # rest"
    using assms(2) by simp
  have dst: "dst < length b" using drop_nonempty_lt[OF s] assms(3) by simp
  have ch: "char_of (62 :: nat) = CHR ''>''" by code_simp
  have "put_rune b dst 0x3E = Inr (b[dst := CHR ''>''], dst + 1)"
    using put_rune_ascii[of "0x3E" dst b] dst ch by simp
  then show ?thesis
    unfolding unescapeEntity_def Let_def name_loop_gt[OF s]
    using assms(1) by (simp add: s)
qed

lemma unescapeEntity_amp:
  assumes "entity T ''amp;'' = 0x26" and "drop src b = ''&amp;'' @ rest" and "dst \<le> src"
  shows "unescapeEntity T b dst src = Inr (b[dst := CHR ''&''], dst + 1, src + 5)"
proof -
  have s: "drop src b = CHR ''&'' # CHR ''a'' # CHR ''m'' # CHR ''p'' # CHR '';'' # rest"
    using assms(2) by simp
  have dst: "dst < length b" using drop_nonempty_lt[OF s] assms(3) by simp
  have ch: "char_of (38 :: nat) = CHR ''&''" by code_simp
  have "put_rune b dst 0x26 = Inr (b[dst := CHR ''&''], dst + 1)"
    using put_rune_ascii[of "0x26" dst b] dst ch by simp
  then show ?thesis
    unfolding unescapeEntity_def Let_def name_loop_amp[OF s]
    using assms(1) by (simp add: s)
qed

lemma unescapeEntity_39:
  assumes "drop src b = ''&#39;'' @ rest" and "dst \<le> src"
  shows "unescapeEntity T b dst src = Inr (b[dst := CHR 0x27], dst + 1, src + 5)"
proof -
  have s: "drop src b = CHR ''&'' # CHR ''#'' # CHR ''3'' # CHR ''9'' # CHR '';'' # rest"
    using assms(1) by simp
  have dst: "dst < length b" using drop_nonempty_lt[OF s] assms(2) by simp
  have ch: "char_of (39 :: nat) = CHR 0x27" by code_simp
  have "put_rune b dst 39 = Inr (b[dst := CHR 0x27], dst + 1)"
    using put_rune_ascii[of 39 dst b] dst ch by simp
  then show ?thesis
    unfolding unescapeEntity_def Let_def
    using numeric_loop_39[OF s] by (simp add: s)
qed

lemma unescapeEntity_34:
  assumes "drop src b = ''&#34;'' @ rest" and "dst \<le> src"
  shows "unescapeEntity T b dst src = Inr (b[dst := CHR 0x22], dst + 1, src + 5)"
proof -
  have s: "drop src b = CHR ''&'' # CHR ''#'' # CHR ''3'' # CHR ''4'' # CHR '';'' # rest"
    using assms(1) by simp
  have dst: "dst < length b" using drop_nonempty_lt[OF s] assms(2) by simp
  have ch: "char_of (34 :: nat) = CHR 0x22" by code_simp
  have "put_rune b dst 34 = Inr (b[dst := CHR 0x22], dst + 1)"
    using put_rune_ascii[of 34 dst b] dst ch by simp
  then show ?thesis
    unfolding unescapeEntity_def Let_def
    using numeric_loop_34[OF s] by (simp add: s)
qed

lemma unescapeEntity_escaped:
  assumes "escaped_entities T" and "c \<in> html_special"
    and "drop src b = escape_byte c @ rest" and "dst \<le> src"
  shows "unescapeEntity T b dst src = Inr (b[dst := c], dst + 1, src + length (escape_byte c))"
proof -
  from assms(2) consider "c = CHR ''&''" | "c = CHR 0x27" | "c = CHR ''<''" | "c = CHR ''>''"
    | "c = CHR 0x22" by (auto simp: html_special_def)
  then show ?thesis
  proof cases
    case 1
    then show ?thesis
      using unescapeEntity_amp[of T src b rest dst] assms(1,3,4)
      by (simp add: escape_byte_def escaped_entities_def)
  next
    case 2
    then show ?thesis
      using unescapeEntity_39[of src b rest dst T] assms(3,4)
      by (simp add: escape_byte_def)
  next
    case 3
    then show ?thesis
      using unescapeEntity_lt[of T src b rest dst] assms(1,3,4)
      by (simp add: escape_byte_def escaped_entities_def)
  next
    case 4
    then show ?thesis
      using unescapeEntity_gt[of T src b rest dst] assms(1,3,4)
      by (simp add: escape_byte_def escaped_entities_def)
  next
    case 5
    then show ?thesis
      using unescapeEntity_34[of src b rest dst T] assms(3,4)
      by (simp add: escape_byte_def)
  qed
qed

subsection \<open>The loop of UnescapeString\<close>

lemma copy_bytes_fit:
  "dst + length xs \<le> length b \<Longrightarrow>
   copy_bytes b dst xs = Inr (take dst b @ xs @ drop (dst + length xs) b, length xs)"
  by (auto simp: copy_bytes_def Let_def min_def)

lemma slice_to_written:
  "dst + length xs \<le> length b \<Longrightarrow>
   slice_to (take dst b @ xs @ drop (dst + length xs) b) (dst + length xs) = Inr (take dst b @ xs)"
  by (simp add: slice_to_def)

lemma take_Suc_update: "dst < length b \<Longrightarrow> take (dst + 1) (b[dst := c]) = take dst b @ [c]"
  by (simp add: take_Suc_conv_app_nth)

lemma IndexByte_range: "IndexByte s c = - 1 \<or> (0 \<le> IndexByte s c \<and> nat (IndexByte s c) < length s)"
  by (induction s) (auto simp: Let_def)

lemma IndexByte_Cons_neq:
  "x \<noteq> c \<Longrightarrow> IndexByte (x # xs) c = (if IndexByte xs c < 0 then - 1 else IndexByte xs c + 1)"
  by (simp add: Let_def)

lemma IndexByte_hd: "xs \<noteq> [] \<Longrightarrow> IndexByte xs c = 0 \<longleftrightarrow> xs ! 0 = c"
  using IndexByte_range[of "tl xs" c] by (cases xs) (auto simp: Let_def)

lemma unescape_loop_end:
  "src = length s \<Longrightarrow> unescape_loop T s b dst src = slice_to b dst"
  by (subst unescape_loop.simps) simp

lemma unescape_loop_amp:
  assumes "src < length s" "s ! src = CHR ''&''"
  shows "unescape_loop T s b dst src =
           (case unescapeEntity T b dst src of
              Inl err \<Rightarrow> Inl err
            | Inr (b, dst, src') \<Rightarrow> unescape_loop T s b dst src')"
  using assms by (subst unescape_loop.simps) simp

lemma unescape_loop_rest:
  assumes "src < length s" "s ! src \<noteq> CHR ''&''" "IndexByte (drop src s) CHR ''&'' < 0"
  shows "unescape_loop T s b dst src =
           (case copy_bytes b dst (drop src s) of
              Inl err \<Rightarrow> Inl err
            | Inr (b, n) \<Rightarrow> slice_to b (dst + n))"
  using assms by (subst unescape_loop.simps) simp

lemma unescape_loop_run:
  assumes "src < length s" "s ! src \<noteq> CHR ''&''" "0 < IndexByte (drop src s) CHR ''&''"
  shows "unescape_loop T s b dst src =
           (case copy_bytes b dst (take (nat (IndexByte (drop src s) CHR ''&'')) (drop src s)) of
              Inl err \<Rightarrow> Inl err
            | Inr (b, n) \<Rightarrow>
                (case unescapeEntity T b (dst + nat (IndexByte (drop src s) CHR ''&''))
                        (src + nat (IndexByte (drop src s) CHR ''&'')) of
                   Inl err \<Rightarrow> Inl err
                 | Inr (b, dst, src') \<Rightarrow> unescape_loop T s b dst src'))"
  using assms by (subst unescape_loop.simps) (simp add: Let_def)

lemma unescape_loop_skip:
  assumes "src < length s" and "s ! src \<noteq> CHR ''&''" and "dst \<le> src" and "length b = length s"
  shows "unescape_loop T s b dst src = unescape_loop T s (b[dst := s ! src]) (dst + 1) (src + 1)"
proof -
  define c where "c = s ! src"
  define rest where "rest = drop (src + 1) s"
  define b1 where "b1 = b[dst := c]"
  have s: "drop src s = c # rest"
    using assms(1) by (simp add: c_def rest_def Cons_nth_drop_Suc)
  have lrest: "src + 1 + length rest = length s" using assms(1) by (simp add: rest_def)
  have dst: "dst < length b" using assms(1,3,4) by simp
  have lb1: "length b1 = length b" by (simp add: b1_def)
  have tb1: "take (dst + 1) b1 = take dst b @ [c]"
    unfolding b1_def by (rule take_Suc_update[OF dst])
  have db1: "drop (dst + 1 + n) b1 = drop (dst + 1 + n) b" for n
    by (simp add: b1_def)
  have idx: "IndexByte (drop src s) CHR ''&'' =
      (if IndexByte rest CHR ''&'' < 0 then - 1 else IndexByte rest CHR ''&'' + 1)"
    unfolding s using assms(2) unfolding c_def[symmetric] by (rule IndexByte_Cons_neq)
  have merge: "take dst b @ (c # xs) @ drop (dst + length (c # xs)) b
      = take (dst + 1) b1 @ xs @ drop (dst + 1 + length xs) b1" for xs
  proof -
    have "dst + length (c # xs) = dst + 1 + length xs" by simp
    then show ?thesis by (simp only: tb1 db1) simp
  qed
  have goal: "unescape_loop T s b dst src = unescape_loop T s b1 (dst + 1) (src + 1)"
  proof (cases "IndexByte rest CHR ''&'' < 0")
    case True
    have fit: "dst + length (c # rest) \<le> length b" using lrest assms(3,4) by simp
    have "unescape_loop T s b dst src =
         slice_to (take dst b @ (c # rest) @ drop (dst + length (c # rest)) b) (dst + length (c # rest))"
      using unescape_loop_rest[OF assms(1,2), of T b dst] True idx
      by (simp only: s copy_bytes_fit[OF fit] sum.case prod.case if_True)
    also have "\<dots> = Inr (take dst b @ (c # rest))" by (rule slice_to_written[OF fit])
    finally have lhs: "unescape_loop T s b dst src = Inr (take dst b @ (c # rest))" .
    show ?thesis
    proof (cases "src + 1 = length s")
      case e: True
      then have "rest = []" using lrest by simp
      moreover have "unescape_loop T s b1 (dst + 1) (src + 1) = Inr (take (dst + 1) b1)"
        using e dst lb1 by (simp add: unescape_loop_end slice_to_def)
      ultimately show ?thesis using lhs tb1 by simp
    next
      case False
      with assms(1) have lt: "src + 1 < length s" by simp
      then have ne: "rest \<noteq> []" by (simp add: rest_def)
      have "IndexByte rest CHR ''&'' \<noteq> 0" using True by simp
      then have "rest ! 0 \<noteq> CHR ''&''" using IndexByte_hd[OF ne, of "CHR ''&''"] by simp
      then have namp: "s ! (src + 1) \<noteq> CHR ''&''" using lt by (simp add: rest_def)
      have fit2: "dst + 1 + length rest \<le> length b1" using lrest assms(3,4) lb1 by simp
      have "unescape_loop T s b1 (dst + 1) (src + 1) =
          slice_to (take (dst + 1) b1 @ rest @ drop (dst + 1 + length rest) b1) (dst + 1 + length rest)"
        using unescape_loop_rest[OF lt namp, of T b1 "dst + 1"] True
        by (simp only: rest_def[symmetric] copy_bytes_fit[OF fit2] sum.case prod.case)
      also have "\<dots> = Inr (take (dst + 1) b1 @ rest)" by (rule slice_to_written[OF fit2])
      finally show ?thesis using lhs tb1 by simp
    qed
  next
    case False
    define i where "i = IndexByte rest CHR ''&''"
    from False IndexByte_range[of rest "CHR ''&''"]
    have i: "0 \<le> i" "nat i < length rest" by (auto simp: i_def)
    then have lt: "src + 1 < length s" using lrest by simp
    define u where "u = take (nat i) rest"
    have lu: "length u = nat i" using i(2) by (simp add: u_def)
    have rne: "rest \<noteq> []" using i(2) by auto
    have idx': "IndexByte (drop src s) CHR ''&'' = i + 1" using idx False by (simp add: i_def)
    have pos: "nat (i + 1) = nat i + 1" using i(1) by simp
    have tk: "take (nat i + 1) (drop src s) = c # u"
      by (simp add: s u_def)
    have fit1: "dst + length (c # u) \<le> length b"
      using i(2) lrest assms(3,4) lu by simp
    have fit2: "dst + 1 + length u \<le> length b1"
      using i(2) lrest assms(3,4) lu lb1 by simp
    have "0 < IndexByte (drop src s) CHR ''&''" using idx' i(1) by simp
    from unescape_loop_run[OF assms(1,2) this, of T b dst]
    have lhs: "unescape_loop T s b dst src =
        (case unescapeEntity T (take dst b @ (c # u) @ drop (dst + length (c # u)) b)
                (dst + (nat i + 1)) (src + (nat i + 1)) of
           Inl err \<Rightarrow> Inl err
         | Inr (b, dst, src') \<Rightarrow> unescape_loop T s b dst src')"
      by (simp only: idx' tk pos copy_bytes_fit[OF fit1] sum.case prod.case)
    show ?thesis
    proof (cases "i = 0")
      case z: True
      then have "rest ! 0 = CHR ''&''"
        using IndexByte_hd[OF rne, of "CHR ''&''"] by (simp add: i_def)
      then have amp: "s ! (src + 1) = CHR ''&''" using lt by (simp add: rest_def)
      have "u = []" using z by (simp add: u_def)
      then have "take dst b @ (c # u) @ drop (dst + length (c # u)) b = b1"
        using dst by (simp add: b1_def upd_conv_take_nth_drop)
      then show ?thesis
        using lhs z unescape_loop_amp[OF lt amp, of T b1 "dst + 1"] by simp
    next
      case nz: False
      with i(1) have ipos: "0 < i" by simp
      then have "rest ! 0 \<noteq> CHR ''&''"
        using IndexByte_hd[OF rne, of "CHR ''&''"] by (simp add: i_def)
      then have namp: "s ! (src + 1) \<noteq> CHR ''&''" using lt by (simp add: rest_def)
      have "0 < IndexByte (drop (src + 1) s) CHR ''&''" using ipos by (simp add: i_def rest_def)
      from unescape_loop_run[OF lt namp this, of T b1 "dst + 1"]
      have "unescape_loop T s b1 (dst + 1) (src + 1) =
        (case unescapeEntity T (take (dst + 1) b1 @ u @ drop (dst + 1 + length u) b1)
                (dst + 1 + nat i) (src + 1 + nat i) of
           Inl err \<Rightarrow> Inl err
         | Inr (b, dst, src') \<Rightarrow> unescape_loop T s b dst src')"
        by (simp only: rest_def[symmetric] i_def[symmetric] u_def[symmetric]
              copy_bytes_fit[OF fit2] sum.case prod.case)
      then show ?thesis
        using lhs merge[of u] by (simp add: add.commute add.left_commute)
    qed
  qed
  then show ?thesis by (simp add: b1_def c_def)
qed

lemma escape_byte_special:
  "c \<in> html_special \<Longrightarrow> \<exists>rest. escape_byte c = CHR ''&'' # rest \<and> 3 \<le> length rest"
  by (auto simp: html_special_def escape_byte_def)

lemma escape_byte_plain: "c \<notin> html_special \<Longrightarrow> escape_byte c = [c] \<and> c \<noteq> CHR ''&''"
  by (auto simp: html_special_def escape_byte_def)

lemma EscapeString_Cons: "EscapeString (c # t) = escape_byte c @ EscapeString t"
  by (simp add: EscapeString_def)

lemma unescape_loop_escaped:
  assumes T: "escaped_entities T"
  shows "length b = length s \<Longrightarrow> dst \<le> src \<Longrightarrow> src \<le> length s \<Longrightarrow>
         drop src b = drop src s \<Longrightarrow> drop src s = EscapeString t \<Longrightarrow>
         unescape_loop T s b dst src = Inr (take dst b @ t)"
proof (induction t arbitrary: b dst src)
  case Nil
  then have "src = length s" by (simp add: EscapeString_def)
  with Nil show ?case by (simp add: unescape_loop_end slice_to_def)
next
  case (Cons c t)
  note len = Cons.prems(1) and le = Cons.prems(2) and buf = Cons.prems(4)
  have esc: "drop src s = escape_byte c @ EscapeString t"
    using Cons.prems(5) by (simp add: EscapeString_Cons)
  show ?case
  proof (cases "c \<in> html_special")
    case True
    from escape_byte_special[OF True] obtain rest
      where rest: "escape_byte c = CHR ''&'' # rest" "3 \<le> length rest" by blast
    let ?k = "length (escape_byte c)"
    have ds: "drop src s = CHR ''&'' # (rest @ EscapeString t)" using esc rest by simp
    have lt: "src < length s" by (rule drop_nonempty_lt[OF ds])
    have amp: "s ! src = CHR ''&''" using ds lt by (metis nth_via_drop)
    have k: "src + ?k \<le> length s"
    proof -
      have "length (drop src s) = ?k + length (EscapeString t)" using esc by simp
      then show ?thesis using lt by simp
    qed
    have step: "unescapeEntity T b dst src = Inr (b[dst := c], dst + 1, src + ?k)"
      using unescapeEntity_escaped[OF T True _ le, of b "EscapeString t"] buf esc by simp
    have "drop (src + ?k) s = EscapeString t"
      using esc by (metis append_eq_conv_conj drop_drop add.commute)
    moreover have "drop (src + ?k) (b[dst := c]) = drop (src + ?k) b"
      using le rest by simp
    moreover have "drop (src + ?k) b = drop (src + ?k) s"
      using buf by (metis drop_drop add.commute)
    ultimately have "unescape_loop T s (b[dst := c]) (dst + 1) (src + ?k)
        = Inr (take (dst + 1) (b[dst := c]) @ t)"
      using len le k rest by (intro Cons.IH) simp_all
    moreover have "take (dst + 1) (b[dst := c]) = take dst b @ [c]"
      using le lt len by (intro take_Suc_update) simp
    ultimately show ?thesis
      using unescape_loop_amp[OF lt amp, of T b dst] step by simp
  next
    case False
    from escape_byte_plain[OF False] have plain: "escape_byte c = [c]" "c \<noteq> CHR ''&''"
      by simp_all
    have ds: "drop src s = c # EscapeString t" using esc plain by simp
    have lt: "src < length s" by (rule drop_nonempty_lt[OF ds])
    have c: "s ! src = c" using ds lt by (metis nth_via_drop)
    have "drop (src + 1) s = EscapeString t"
      using ds by (metis drop_Suc tl_drop list.sel(3) Suc_eq_plus1)
    moreover have "drop (src + 1) (b[dst := c]) = drop (src + 1) b"
      using le by simp
    moreover have "drop (src + 1) b = drop (src + 1) s"
      using buf by (metis drop_drop add.commute)
    ultimately have "unescape_loop T s (b[dst := c]) (dst + 1) (src + 1)
        = Inr (take (dst + 1) (b[dst := c]) @ t)"
      using len le lt by (intro Cons.IH) simp_all
    moreover have "take (dst + 1) (b[dst := c]) = take dst b @ [c]"
      using le lt len by (intro take_Suc_update) simp
    ultimately show ?thesis
      using unescape_loop_skip[OF lt _ le len, of T] c plain(2) by simp
  qed
qed

lemma IndexByte_absent: "IndexByte s c < 0 \<Longrightarrow> j < length s \<Longrightarrow> s ! j \<noteq> c"
proof (induction s arbitrary: j)
  case Nil
  then show ?case by simp
next
  case (Cons x xs)
  then have "x \<noteq> c" "IndexByte xs c < 0" by (auto simp: Let_def split: if_splits)
  with Cons show ?case by (cases j) simp_all
qed

lemma IndexByte_found:
  "0 \<le> IndexByte s c \<Longrightarrow> s ! nat (IndexByte s c) = c \<and> (\<forall>j < nat (IndexByte s c). s ! j \<noteq> c)"
proof (induction s)
  case Nil
  then show ?case by simp
next
  case (Cons x xs)
  show ?case
  proof (cases "x = c")
    case True
    then show ?thesis by simp
  next
    case False
    with Cons.prems have nn: "0 \<le> IndexByte xs c" by (simp add: Let_def split: if_splits)
    with False have eq: "nat (IndexByte (x # xs) c) = Suc (nat (IndexByte xs c))"
      by (simp add: Let_def)
    from Cons.IH[OF nn] False show ?thesis
      unfolding eq by (auto simp: nth_Cons split: nat.splits)
  qed
qed

lemma unescape_loop_start:
  "k \<le> length s \<Longrightarrow> \<forall>j<k. s ! j \<noteq> CHR ''&'' \<Longrightarrow>
   unescape_loop T s s 0 0 = unescape_loop T s s k k"
proof (induction k)
  case 0
  then show ?case by simp
next
  case (Suc k)
  then have "unescape_loop T s s 0 0 = unescape_loop T s s k k" by simp
  also have "\<dots> = unescape_loop T s (s[k := s ! k]) (k + 1) (k + 1)"
    using Suc.prems by (intro unescape_loop_skip) simp_all
  finally show ?case by simp
qed

lemma UnescapeString_loop: "UnescapeString T s = unescape_loop T s s 0 0"
proof (cases "IndexByte s CHR ''&'' < 0")
  case True
  then have "\<forall>j<length s. s ! j \<noteq> CHR ''&''" using IndexByte_absent by blast
  from unescape_loop_start[OF order_refl this, of T]
  have "unescape_loop T s s 0 0 = Inr s" by (simp add: unescape_loop_end slice_to_def)
  with True show ?thesis by (simp add: UnescapeString_def)
next
  case False
  let ?i = "nat (IndexByte s CHR ''&'')"
  from False IndexByte_range[of s "CHR ''&''"] have lt: "?i < length s" by auto
  from False IndexByte_found[of s "CHR ''&''"]
  have amp: "s ! ?i = CHR ''&''" and before: "\<forall>j<?i. s ! j \<noteq> CHR ''&''" by auto
  have "unescape_loop T s s 0 0 = unescape_loop T s s ?i ?i"
    using lt before by (intro unescape_loop_start) simp_all
  also have "\<dots> = UnescapeString T s"
    using False by (simp add: unescape_loop_amp[OF lt amp] UnescapeString_def Let_def)
  finally show ?thesis by simp
qed

lemma UnescapeString_EscapeString:
  assumes "escaped_entities T"
  shows "UnescapeString T (EscapeString t) = Inr t"
  using unescape_loop_escaped[OF assms, of "EscapeString t" "EscapeString t" 0 0 t]
  by (simp add: UnescapeString_loop)

text \<open>
  C6: for every string \<open>s\<close> made of the characters \<^verbatim>\<open>< > & '\<close> and the double quote
  only, \<open>htmlEscape\<close> succeeds and \<open>htmlUnescape\<close> of its result is \<open>s\<close> again. The
  table of named references is assumed to hold what \<^verbatim>\<open>html/entity.go\<close> lists for
  \<^verbatim>\<open>amp;\<close>, \<^verbatim>\<open>lt;\<close> and \<^verbatim>\<open>gt;\<close>; the two quotes are written as numeric references and
  need no table.
\<close>

theorem htmlUnescape_htmlEscape:
  assumes "escaped_entities T" and "\<forall>c\<in>set s. c \<in> html_special"
  shows "\<exists>e. htmlEscape (VString s) = Inr e \<and> htmlUnescape T (VString e) = Inr s"
  using UnescapeString_EscapeString[OF assms(1), of s]
  by (simp add: htmlEscape_def htmlUnescape_def)

theorem htmlUnescape_htmlEscape_witness:
  "\<exists>e. htmlEscape (VString [CHR ''<'', CHR 0x27, CHR ''&'', CHR ''&'', CHR 0x22, CHR ''>'']) = Inr e \<and>
       htmlUnescape sample_tables (VString e) = Inr [CHR ''<'', CHR 0x27, CHR ''&'', CHR ''&'', CHR 0x22, CHR ''>'']"
proof -
  have a: "escaped_entities sample_tables"
    by (simp add: escaped_entities_def sample_tables_def)
  have b: "\<forall>c\<in>set [CHR ''<'', CHR 0x27, CHR ''&'', CHR ''&'', CHR 0x22, CHR ''>'']. c \<in> html_special"
    by (simp add: html_special_def)
  show ?thesis by (rule htmlUnescape_htmlEscape[OF a b])
qed

section \<open>Properties of dateFormat\<close>









end
